theory Spec2Isabelle
  imports Complex_Main "HOL-Library.Word" "HOL-Library.Multiset" "HOL-Library.Monad_Syntax"
begin

unbundle bit_operations_syntax

section \<open>Conventions of the embedding\<close>

text \<open>
  The development embeds the kernels of \<^verbatim>\<open>include/bitonic-hubs-ws.cuh\<close> and the host
  routine \<^verbatim>\<open>C_and_Q\<close> that launches them.

  \<^item> Device arrays are lists. An index of type \<^verbatim>\<open>idx_t\<close> is a natural number.
  \<^item> Values of type \<^verbatim>\<open>float\<close> are real numbers: rounding is not modelled, the order
    and the arithmetic structure are.
  \<^item> The hub count \<^verbatim>\<open>H\<close> is a compile-time constant declared outside this header; every
    kernel of the model takes it as its first argument.
  \<^item> A kernel that fails an \<^verbatim>\<open>assert\<close>, divides by zero or touches an array outside its
    bounds returns \<open>None\<close>.
\<close>

text \<open>
  Modelled from the spec: the constant \<^verbatim>\<open>warp_size\<close> is declared outside this header (a
  commented-out declaration \<^verbatim>\<open>idx_t constexpr warp_size = 32\<close> remains in it, and
  \<^verbatim>\<open>prefix_sum_warp\<close> declares the same value locally); the spec gives the
  synchronization-group width as 32.
\<close>

definition warp_size :: nat where
  "warp_size = 32"

text \<open>
  Modelled from the spec: the constant \<^verbatim>\<open>dim\<close> is declared outside this header; the spec's
  points have 3 coordinates, and the kernels read the offsets 0, 1 and 2 of a point.
\<close>

definition dim :: nat where
  "dim = 3"

definition FLT_MAX :: real where
  "FLT_MAX = 340282346638528859811704183484516925440"

text \<open>
  Modelled from the spec: \<^verbatim>\<open>util::CEIL_DIV\<close> is declared outside this header. It is the
  rounded-up quotient, which the header also writes inline as
  \<^verbatim>\<open>(n + batch_size - 1) / batch_size\<close>.
\<close>

definition CEIL_DIV :: "nat \<Rightarrow> nat \<Rightarrow> nat" where
  "CEIL_DIV a b = (a + b - 1) div b"

text \<open>A checked array read: \<open>None\<close> outside the bounds.\<close>

definition rd :: "'a list \<Rightarrow> nat \<Rightarrow> 'a option" where
  "rd xs i = (if i < length xs then Some (xs ! i) else None)"

text \<open>A checked array write.\<close>

definition wr :: "'a list \<Rightarrow> nat \<Rightarrow> 'a \<Rightarrow> 'a list option" where
  "wr xs i v = (if i < length xs then Some (xs[i := v]) else None)"

text \<open>All the results of a list of fallible steps, or \<open>None\<close> when one of them fails.\<close>

fun those_opt :: "'a option list \<Rightarrow> 'a list option" where
  "those_opt [] = Some []"
| "those_opt (None # _) = None"
| "those_opt (Some x # xs) = (case those_opt xs of None \<Rightarrow> None | Some ys \<Rightarrow> Some (x # ys))"

text \<open>
  Modelled from the spec: \<^verbatim>\<open>spatial::l2dist\<close> is declared outside this header (in
  \<^verbatim>\<open>spatial.cuh\<close>). The header takes \<^verbatim>\<open>sqrt\<close> of its result wherever it needs the
  Euclidean distance of the spec, so it is the sum of the squared coordinate differences.
\<close>

definition l2dist :: "real \<Rightarrow> real \<Rightarrow> real \<Rightarrow> real \<Rightarrow> real \<Rightarrow> real \<Rightarrow> real" where
  "l2dist q_x q_y q_z p_x p_y p_z = (q_x - p_x)\<^sup>2 + (q_y - p_y)\<^sup>2 + (q_z - p_z)\<^sup>2"

section \<open>Hub selection: \<^verbatim>\<open>Randomly_Select_Hubs\<close>\<close>

text \<open>
  The seed and the random number are \<^verbatim>\<open>unsigned int\<close>: 32-bit words, whose product and
  sum wrap around. The remainder by \<^verbatim>\<open>2147483648\<close> is taken on the unsigned value.
\<close>

definition hub_hash :: "nat \<Rightarrow> 32 word" where
  "hub_hash idx =
     (let seed = 1234 + word_of_nat idx
      in (seed * 1103515245 + 12345) mod 2147483648)"

text \<open>One thread of the kernel: the value it stores in \<^verbatim>\<open>dH[idx]\<close>.\<close>

definition select_hub :: "nat \<Rightarrow> nat \<Rightarrow> nat option" where
  "select_hub n idx = (if n = 0 then None else Some (unat (hub_hash idx) mod n))"

text \<open>
  The kernel: the threads with \<^verbatim>\<open>idx < H\<close> each write their own cell of \<^verbatim>\<open>dH\<close>; the grid
  of \<^verbatim>\<open>C_and_Q\<close> covers all of them.
\<close>

definition Randomly_Select_Hubs :: "nat \<Rightarrow> nat \<Rightarrow> nat list option" where
  "Randomly_Select_Hubs H n = those_opt (map (select_hub n) [0..<H])"

section \<open>Choice of the top-K collector: the \<^verbatim>\<open>switch\<close> of \<^verbatim>\<open>C_and_Q\<close>\<close>

text \<open>
  The template arguments of the \<^verbatim>\<open>Query\<close> instance a case launches: the bound of the
  collector (\<^verbatim>\<open>WarpQ\<close>), the length of the thread queues and the threads per block.
  The \<^verbatim>\<open>default\<close> case is \<^verbatim>\<open>assert(false)\<close>.
\<close>

datatype launch = Launch (WarpQ: nat) (ThreadQ: nat) (ThreadsPerBlock: nat) | Assert_Failed

definition C_and_Q_switch :: "nat \<Rightarrow> launch" where
  "C_and_Q_switch k =
     (let c = CEIL_DIV k warp_size in
      if c = 1 then Launch 32 2 128
      else if c = 2 then Launch 64 3 128
      else if c = 3 then Launch 128 3 128
      else if c = 4 then Launch 256 4 128
      else if c = 5 then Launch 512 8 128
      else Assert_Failed)"

text \<open>
  The choice as the spec words it: the smallest of the tiers 32, 64, 128, 256, 512 that
  is at least \<open>k\<close>, and a fatal error above 512.
\<close>

definition spec_tier :: "nat \<Rightarrow> nat option" where
  "spec_tier k =
     (if k \<le> 32 then Some 32
      else if k \<le> 64 then Some 64
      else if k \<le> 128 then Some 128
      else if k \<le> 256 then Some 256
      else if k \<le> 512 then Some 512
      else None)"

definition launched_tier :: "launch \<Rightarrow> nat option" where
  "launched_tier l = (case l of Launch w _ _ \<Rightarrow> Some w | Assert_Failed \<Rightarrow> None)"

section \<open>The query stage: \<^verbatim>\<open>Query\<close>\<close>

text \<open>
  Modelled from the spec: the collector \<^verbatim>\<open>faiss::gpu::WarpSelect\<close> is an external
  collaborator. The kernel is modelled over any collector, given by its four operations:
  the constructor (initial distance, initial identifier, \<open>K\<close>), the warp-wide
  \<^verbatim>\<open>add\<close> of one candidate per lane, the field \<^verbatim>\<open>warpKTop\<close> (the spec's current worst
  retained distance) and, for \<^verbatim>\<open>reduce\<close> followed by \<^verbatim>\<open>writeOut\<close>, the pair written to
  slot \<open>i\<close> of the destination.
\<close>

record 'h collector =
  heap_init :: "real \<Rightarrow> int \<Rightarrow> nat \<Rightarrow> 'h"
  heap_add :: "'h \<Rightarrow> (real \<times> int) list \<Rightarrow> 'h"
  warpKTop :: "'h \<Rightarrow> real"
  heap_writeOut :: "'h \<Rightarrow> nat \<Rightarrow> real \<times> int"

text \<open>
  The arrays of the index that the kernel reads: the points, the hub list, the bucketed
  identifiers and coordinates, the ranked hub tables, the offsets and the assignments.
\<close>

record knn_index =
  ix_points :: "real list"
  ix_dH :: "nat list"
  ix_arr_idx :: "nat list"
  ix_arr_x :: "real list"
  ix_arr_y :: "real list"
  ix_arr_z :: "real list"
  ix_iD :: "nat list"
  ix_dD :: "real list"
  ix_dH_psum :: "nat list"
  ix_assignments :: "nat list"

text \<open>
  The local variables of one warp that the traversal loop changes. The counter
  \<^verbatim>\<open>poitns_scanned\<close> is left out: the kernel never stores it.
\<close>

record 'h scan =
  hubs_processed :: nat
  scan_hub_from :: nat
  scan_hub_to :: nat
  current_H :: nat
  dist_to_this_hub :: real
  heap :: 'h

text \<open>
  The candidate of one lane: the point at \<^verbatim>\<open>scan_hub_from + lane_id\<close> of the bucket with its
  \<^verbatim>\<open>l2dist\<close> from the query point, or the sentinel past the end of the bucket.
\<close>

definition next_candidate ::
  "nat \<Rightarrow> knn_index \<Rightarrow> real \<times> real \<times> real \<Rightarrow> nat \<Rightarrow> nat \<Rightarrow> nat \<Rightarrow> (real \<times> int) option" where
  "next_candidate Points_num ix q from to lane_id =
     (if from + lane_id < to then
        do {
          next_point_id \<leftarrow> rd (ix_arr_idx ix) (from + lane_id);
          next_x \<leftarrow> rd (ix_arr_x ix) (from + lane_id);
          next_y \<leftarrow> rd (ix_arr_y ix) (from + lane_id);
          next_z \<leftarrow> rd (ix_arr_z ix) (from + lane_id);
          Some (case q of (q_x, q_y, q_z) \<Rightarrow> l2dist q_x q_y q_z next_x next_y next_z,
                int next_point_id)
        }
      else Some (FLT_MAX, int Points_num))"

text \<open>The condition of the \<^verbatim>\<open>while\<close> loop.\<close>

definition continue_scan :: "'h collector \<Rightarrow> nat \<Rightarrow> real \<Rightarrow> 'h scan \<Rightarrow> bool" where
  "continue_scan c H dist_to_my_hub st \<longleftrightarrow>
     hubs_processed st < H \<and>
     sqrt (warpKTop c (heap st)) > dist_to_this_hub st - dist_to_my_hub"

text \<open>
  The body of the loop: the 32 lanes add their candidates, the scan position advances by
  a warp, and past the end of the bucket the next ranked hub is fetched.
\<close>

definition Query_step ::
  "'h collector \<Rightarrow> nat \<Rightarrow> nat \<Rightarrow> knn_index \<Rightarrow> real \<times> real \<times> real \<Rightarrow> nat \<Rightarrow> 'h scan
     \<Rightarrow> 'h scan option" where
  "Query_step c H Points_num ix q hub_containing_qp st =
     do {
       batch \<leftarrow> those_opt (map (next_candidate Points_num ix q (scan_hub_from st) (scan_hub_to st))
                  [0..<warp_size]);
       let st = st\<lparr>heap := heap_add c (heap st) batch,
                   scan_hub_from := scan_hub_from st + warp_size\<rparr>;
       if scan_hub_from st \<ge> scan_hub_to st then
         let st = st\<lparr>hubs_processed := hubs_processed st + 1\<rparr> in
         if hubs_processed st < H then
           do {
             cur \<leftarrow> rd (ix_iD ix) (hub_containing_qp * H + hubs_processed st);
             d \<leftarrow> rd (ix_dD ix) (hub_containing_qp * H + hubs_processed st);
             from \<leftarrow> rd (ix_dH_psum ix) cur;
             to \<leftarrow> rd (ix_dH_psum ix) (cur + 1);
             Some (st\<lparr>current_H := cur, dist_to_this_hub := d,
                      scan_hub_from := from, scan_hub_to := to\<rparr>)
           }
         else Some st
       else Some st
     }"

lemma Query_step_decreases:
  assumes "Query_step c H Points_num ix q hub st = Some st'" "hubs_processed st < H"
  shows "(hubs_processed st' = hubs_processed st + 1) \<or>
         (hubs_processed st' = hubs_processed st \<and> scan_hub_to st' = scan_hub_to st \<and>
          scan_hub_from st' = scan_hub_from st + warp_size \<and> scan_hub_from st' < scan_hub_to st')"
  using assms
  by (auto simp: Query_step_def Let_def split: if_splits Option.bind_splits)

function Query_loop ::
  "'h collector \<Rightarrow> nat \<Rightarrow> nat \<Rightarrow> knn_index \<Rightarrow> real \<times> real \<times> real \<Rightarrow> nat \<Rightarrow> real \<Rightarrow> 'h scan
     \<Rightarrow> 'h scan option" where
  "Query_loop c H Points_num ix q hub_containing_qp dist_to_my_hub st =
     (if continue_scan c H dist_to_my_hub st then
        (case Query_step c H Points_num ix q hub_containing_qp st of
           None \<Rightarrow> None
         | Some st' \<Rightarrow> Query_loop c H Points_num ix q hub_containing_qp dist_to_my_hub st')
      else Some st)"
  by pat_completeness auto

termination
proof (relation "measures [\<lambda>(c, H, Points_num, ix, q, hub, my, st). H - hubs_processed st,
                          \<lambda>(c, H, Points_num, ix, q, hub, my, st). scan_hub_to st - scan_hub_from st]",
    goal_cases)
  case 1
  then show ?case by simp
next
  case (2 c H Points_num ix q hub dist_to_my_hub st st')
  then have "hubs_processed st < H" by (simp add: continue_scan_def)
  from Query_step_decreases [OF 2(2) this] this show ?case
    by (auto simp: warp_size_def)
qed

declare Query_loop.simps [simp del]




text \<open>The warps (or threads, or blocks) of a launch, run one after the other.\<close>

fun run_warps :: "('s \<Rightarrow> nat \<Rightarrow> 's option) \<Rightarrow> nat list \<Rightarrow> 's \<Rightarrow> 's option" where
  "run_warps f [] s = Some s"
| "run_warps f (w # ws) s = (case f s w of None \<Rightarrow> None | Some s' \<Rightarrow> run_warps f ws s')"


text \<open>
  Modelled from the spec: a collector that keeps the \<open>K\<close> smallest pairs seen so far,
  sorted by distance, and reports the largest retained distance as the current worst. It
  serves as the concrete collector of the examples.
\<close>

record topk =
  tk_K :: nat
  tk_items :: "(real \<times> int) list"

definition topk_collector :: "topk collector" where
  "topk_collector =
     \<lparr>heap_init = (\<lambda>initK initV K. \<lparr>tk_K = K, tk_items = replicate K (initK, initV)\<rparr>),
      heap_add = (\<lambda>h batch. h\<lparr>tk_items := take (tk_K h) (foldr (insort_key fst) batch (tk_items h))\<rparr>),
      warpKTop = (\<lambda>h. if tk_items h = [] then FLT_MAX else fst (last (tk_items h))),
      heap_writeOut = (\<lambda>h i. tk_items h ! i)\<rparr>"


subsection \<open>A small index\<close>

text \<open>
  Two points, \<open>(0, 0, 0)\<close> and \<open>(1, 0, 0)\<close>, and 32 hub slots, of which slot 0 holds
  point 0 and slot 1 holds point 1; each point is the only member of its bucket.
\<close>

definition ex_ix :: knn_index where
  "ex_ix = \<lparr>ix_points = [0, 0, 0, 1, 0, 0],
            ix_dH = 0 # 1 # replicate 30 0,
            ix_arr_idx = [0, 1],
            ix_arr_x = [0, 1], ix_arr_y = [0, 0], ix_arr_z = [0, 0],
            ix_iD = map (\<lambda>i. if i = 32 then 1 else if i = 33 then 0 else i mod 32) [0..<1024],
            ix_dD = map (\<lambda>i. if i mod 32 = 0 then 0 else if i mod 32 = 1 then 1 else FLT_MAX) [0..<1024],
            ix_dH_psum = 0 # 1 # replicate 31 2,
            ix_assignments = [0, 1]\<rparr>"

text \<open>
  The loop states of the two queries: \<open>ex_st0\<close> and \<open>ex_st2\<close> on entry to the loop for
  the points 0 and 1, \<open>ex_st1\<close> and \<open>ex_st3\<close> after one pass of its body.
\<close>

definition ex_st0 :: "topk scan" where
  "ex_st0 = \<lparr>hubs_processed = 0, scan_hub_from = 0, scan_hub_to = 1, current_H = 0,
     dist_to_this_hub = 0, heap = \<lparr>tk_K = 1, tk_items = [(FLT_MAX, - 1)]\<rparr>\<rparr>"

definition ex_st1 :: "topk scan" where
  "ex_st1 = \<lparr>hubs_processed = 1, scan_hub_from = 1, scan_hub_to = 2, current_H = 1,
     dist_to_this_hub = 1, heap = \<lparr>tk_K = 1, tk_items = [(0, 0)]\<rparr>\<rparr>"



section \<open>Distances and the hub distance matrix\<close>

text \<open>
  The arrays that the index construction changes while it walks the batches: the
  distance table of the current batch, the population counters (the array
  \<^verbatim>\<open>dH_psum\<close> of \<^verbatim>\<open>C_and_Q\<close>, of length \<open>H + 1\<close>), the assignments and the matrix
  \<^verbatim>\<open>D\<close>.
\<close>

record build_state =
  bs_distances :: "real list"
  bs_hub_counts :: "nat list"
  bs_assignments :: "nat list"
  bs_D :: "real list"

subsection \<open>\<^verbatim>\<open>Calculate_Distances\<close>\<close>

text \<open>
  The distance that the kernel computes from a point \<open>q\<close> to the hub of slot \<open>h\<close>:
  the square root of \<^verbatim>\<open>l2dist\<close> to the point at \<^verbatim>\<open>&points[dim * dH[h]]\<close>.
\<close>

definition hub_distance ::
  "real list \<Rightarrow> nat list \<Rightarrow> real \<times> real \<times> real \<Rightarrow> nat \<Rightarrow> real option" where
  "hub_distance points dH q h =
     do {
       hp \<leftarrow> rd dH h;
       p_x \<leftarrow> rd points (dim * hp);
       p_y \<leftarrow> rd points (dim * hp + 1);
       p_z \<leftarrow> rd points (dim * hp + 2);
       Some (case q of (q_x, q_y, q_z) \<Rightarrow> sqrt (l2dist q_x q_y q_z p_x p_y p_z))
     }"

text \<open>The coordinates of point \<open>idx\<close>.\<close>

definition point_at :: "real list \<Rightarrow> nat \<Rightarrow> (real \<times> real \<times> real) option" where
  "point_at points idx =
     do {
       q_x \<leftarrow> rd points (idx * dim);
       q_y \<leftarrow> rd points (idx * dim + 1);
       q_z \<leftarrow> rd points (idx * dim + 2);
       Some (q_x, q_y, q_z)
     }"

text \<open>
  One pass of the loop over the hubs, on the distance table, the minimal distance and
  the assigned hub.
\<close>

definition nearest_step ::
  "nat \<Rightarrow> real list \<Rightarrow> nat list \<Rightarrow> real \<times> real \<times> real \<Rightarrow> nat \<Rightarrow> real list \<times> real \<times> nat \<Rightarrow> nat
     \<Rightarrow> (real list \<times> real \<times> nat) option" where
  "nearest_step b_size points dH q idx_within_b s h =
     (case s of (distances, minimal_dist, assigned_H) \<Rightarrow>
        do {
          next_hub_distance \<leftarrow> hub_distance points dH q h;
          distances \<leftarrow> wr distances (h * b_size + idx_within_b) next_hub_distance;
          Some (if next_hub_distance < minimal_dist then (distances, next_hub_distance, h)
                else (distances, minimal_dist, assigned_H))
        })"

text \<open>
  One thread: \<open>t\<close> is \<^verbatim>\<open>blockIdx.x * blockDim.x + threadIdx.x\<close>. The increment of the
  population counter is atomic in the kernel; here the threads run one after the other.
\<close>

definition Calculate_Distances_thread ::
  "nat \<Rightarrow> nat \<Rightarrow> nat \<Rightarrow> nat \<Rightarrow> nat list \<Rightarrow> real list \<Rightarrow> build_state \<Rightarrow> nat
     \<Rightarrow> build_state option" where
  "Calculate_Distances_thread H b_id b_size n dH points st t =
     (let idx = t + b_id * b_size; idx_within_b = t in
      if idx < n \<and> idx_within_b < b_size then
        do {
          q \<leftarrow> point_at points idx;
          (distances, minimal_dist, assigned_H) \<leftarrow>
            run_warps (nearest_step b_size points dH q idx_within_b) [0..<H]
              (bs_distances st, FLT_MAX, H + 1);
          assignments \<leftarrow> wr (bs_assignments st) idx assigned_H;
          c \<leftarrow> rd (bs_hub_counts st) assigned_H;
          hub_counts \<leftarrow> wr (bs_hub_counts st) assigned_H (c + 1);
          Some (st\<lparr>bs_distances := distances, bs_assignments := assignments,
                   bs_hub_counts := hub_counts\<rparr>)
        }
      else Some st)"

text \<open>
  The kernel, launched by \<^verbatim>\<open>C_and_Q\<close> with \<open>(b_size + 1023) div 1024\<close> blocks of 1024
  threads. Its first statement asserts \<open>H > 0\<close>.
\<close>

definition Calculate_Distances ::
  "nat \<Rightarrow> nat \<Rightarrow> nat \<Rightarrow> nat \<Rightarrow> nat list \<Rightarrow> real list \<Rightarrow> build_state \<Rightarrow> build_state option" where
  "Calculate_Distances H b_id b_size n dH points st =
     (if H = 0 then None
      else run_warps (Calculate_Distances_thread H b_id b_size n dH points)
             [0..<(b_size + 1024 - 1) div 1024 * 1024] st)"

subsection \<open>\<^verbatim>\<open>Construct_D\<close>\<close>

text \<open>
  The kernel keeps the row in shared memory as integers and takes minima with the integer
  \<^verbatim>\<open>atomicMin\<close> on the bit patterns of the floats. On non-negative floats the order of
  the bit patterns is the order of the values, and every value the kernel compares is a
  square root, the initial value of \<^verbatim>\<open>D\<close> or the fill value: the model takes the minimum
  of the values. The fill value is the float with the bit pattern \<^verbatim>\<open>0x7f000000\<close>,
  which is \<open>2 ^ 127\<close>.
\<close>

definition s_dists_init :: real where
  "s_dists_init = 2 ^ 127"

text \<open>The contribution of the point at position \<open>p\<close> of the batch to the row in shared memory.\<close>

definition Construct_D_point ::
  "nat \<Rightarrow> nat \<Rightarrow> nat \<Rightarrow> nat \<Rightarrow> real list \<Rightarrow> nat list \<Rightarrow> nat \<Rightarrow> real list \<Rightarrow> nat
     \<Rightarrow> real list option" where
  "Construct_D_point H b_id b_size n distances assignments hub_id s_dists p =
     (let idx = b_id * b_size + p in
      if idx < n then
        do {
          this_H \<leftarrow> rd assignments idx;
          d \<leftarrow> rd distances (hub_id * b_size + p);
          if this_H < H then Some (s_dists[this_H := min (s_dists ! this_H) d]) else None
        }
      else Some s_dists)"

text \<open>The write-back of one cell of the row: the minimum with the value the matrix holds.\<close>

definition Construct_D_cell :: "nat \<Rightarrow> nat \<Rightarrow> real list \<Rightarrow> real list \<Rightarrow> nat \<Rightarrow> real list option" where
  "Construct_D_cell H hub_id s_dists D c =
     do {
       old \<leftarrow> rd D (H * hub_id + c);
       wr D (H * hub_id + c) (min (s_dists ! c) old)
     }"

text \<open>The thread block of row \<open>hub_id\<close>, with its assertion that the row fits in shared memory.\<close>

definition Construct_D_block ::
  "nat \<Rightarrow> nat \<Rightarrow> nat \<Rightarrow> nat \<Rightarrow> real list \<Rightarrow> nat list \<Rightarrow> real list \<Rightarrow> nat \<Rightarrow> real list option" where
  "Construct_D_block H b_id b_size n distances assignments D hub_id =
     (if H \<le> 2048 then
        do {
          s_dists \<leftarrow> run_warps (Construct_D_point H b_id b_size n distances assignments hub_id)
                       [0..<b_size] (replicate H s_dists_init);
          run_warps (Construct_D_cell H hub_id s_dists) [0..<H] D
        }
      else None)"

text \<open>The kernel: one block for each of the \<open>H\<close> rows.\<close>

definition Construct_D ::
  "nat \<Rightarrow> nat \<Rightarrow> nat \<Rightarrow> nat \<Rightarrow> build_state \<Rightarrow> build_state option" where
  "Construct_D H b_id b_size n st =
     do {
       D \<leftarrow> run_warps (Construct_D_block H b_id b_size n (bs_distances st) (bs_assignments st))
              [0..<H] (bs_D st);
       Some (st\<lparr>bs_D := D\<rparr>)
     }"

subsection \<open>The batches of \<^verbatim>\<open>C_and_Q\<close>\<close>

text \<open>
  \<^verbatim>\<open>C_and_Q\<close> zeroes the counters and the assignments, fills \<^verbatim>\<open>D\<close> with \<^verbatim>\<open>FLT_MAX\<close>
  (\<^verbatim>\<open>set_max_float\<close>) and runs the two kernels for every batch. The distance table is
  not initialised: its first contents are an argument. The batch size, the constant
  100000 of \<^verbatim>\<open>C_and_Q\<close>, is an argument too; a batch size of 0 divides by zero.
\<close>

text \<open>
  The distance of point \<open>p\<close> to the hub of slot \<open>h\<close>, as \<^verbatim>\<open>Calculate_Distances\<close>
  computes it.
\<close>

definition pdist :: "real list \<Rightarrow> nat list \<Rightarrow> nat \<Rightarrow> nat \<Rightarrow> real option" where
  "pdist points dH p h = point_at points p \<bind> (\<lambda>q. hub_distance points dH q h)"

definition set_max_float :: "nat \<Rightarrow> real list" where
  "set_max_float sz = replicate sz FLT_MAX"

definition C_and_Q_batch ::
  "nat \<Rightarrow> nat \<Rightarrow> nat \<Rightarrow> nat list \<Rightarrow> real list \<Rightarrow> build_state \<Rightarrow> nat \<Rightarrow> build_state option" where
  "C_and_Q_batch H batch_size n dH data st batch_id =
     Calculate_Distances H batch_id batch_size n dH data st \<bind>
     Construct_D H batch_id batch_size n"

definition C_and_Q_batches ::
  "nat \<Rightarrow> nat \<Rightarrow> nat \<Rightarrow> nat list \<Rightarrow> real list \<Rightarrow> real list \<Rightarrow> build_state option" where
  "C_and_Q_batches H batch_size n dH data distances =
     (if batch_size = 0 then None
      else
        let batch_number = (n + batch_size - 1) div batch_size
        in run_warps (C_and_Q_batch H batch_size n dH data) [0..<batch_number]
             \<lparr>bs_distances = distances, bs_hub_counts = replicate (H + 1) 0,
              bs_assignments = replicate n 0, bs_D = set_max_float (H * H)\<rparr>)"

text \<open>
  The matrix is sound for the first \<open>m\<close> points: no entry of a row exceeds the distance
  from the row's hub to one of these points assigned to the entry's hub.
\<close>

definition D_sound :: "nat \<Rightarrow> nat list \<Rightarrow> real list \<Rightarrow> nat \<Rightarrow> build_state \<Rightarrow> bool" where
  "D_sound H dH data m st \<longleftrightarrow>
     (\<forall>i < H. \<forall>p < m. \<exists>d. pdist data dH p i = Some d \<and>
        H * i + bs_assignments st ! p < length (bs_D st) \<and>
        bs_D st ! (H * i + bs_assignments st ! p) \<le> d)"

text \<open>
  The arrays after the two batches of a cloud of the two points \<open>(0, 0, 0)\<close> and
  \<open>(1, 0, 0)\<close>, with two hubs and a batch size of one point.
\<close>

definition ex_build :: build_state where
  "ex_build = \<lparr>bs_distances = [1, 0], bs_hub_counts = [1, 1, 0], bs_assignments = [0, 1],
     bs_D = [0, 1, 1, 0]\<rparr>"

section \<open>Squared and square-rooted distances\<close>






subsection \<open>An index with two points at distance 2\<close>









section \<open>Rebalancing: \<^verbatim>\<open>reassignPoints\<close>\<close>

text \<open>
  The kernel copies the counters of the \<open>H\<close> hubs to shared memory in the threads whose
  global index is below \<open>H\<close>; with \<open>H < 1024\<close> these all lie in the first thread
  block, and a second block would read shared memory that was never written. The model
  is of a launch of one block of at least \<open>H\<close> and at most 1024 threads; \<open>threads\<close> is
  their number. The
  kernel reads its distance table with the stride \<open>n\<close>.
\<close>

text \<open>One pass of the loop over the hubs, on the minimal distance and the new hub.\<close>

definition reassign_step ::
  "nat \<Rightarrow> nat \<Rightarrow> real list \<Rightarrow> nat list \<Rightarrow> nat \<Rightarrow> real \<times> nat \<Rightarrow> nat \<Rightarrow> (real \<times> nat) option" where
  "reassign_step n k distances initial_counts idx s h =
     (case s of (minimal_dist, new_hub) \<Rightarrow>
        do {
          next_distance \<leftarrow> rd distances (h * n + idx);
          if next_distance < FLT_MAX then
            do {
              c \<leftarrow> rd initial_counts h;
              Some (if c \<ge> k \<and> next_distance < minimal_dist then (next_distance, h)
                    else (minimal_dist, new_hub))
            }
          else None
        })"

text \<open>
  The reassignment of point \<open>idx\<close>, with the five assertions that follow the loop in
  their order.
\<close>

definition reassign_point ::
  "nat \<Rightarrow> nat \<Rightarrow> nat \<Rightarrow> real list \<Rightarrow> nat list \<Rightarrow> nat list \<times> nat list \<Rightarrow> nat
     \<Rightarrow> (nat list \<times> nat list) option" where
  "reassign_point H n k distances initial_counts s idx =
     (case s of (hub_counts, dH_assignments) \<Rightarrow>
        do {
          current_hub \<leftarrow> rd dH_assignments idx;
          c \<leftarrow> rd initial_counts current_hub;
          if c < k then
            do {
              (minimal_dist, new_hub) \<leftarrow>
                run_warps (reassign_step n k distances initial_counts idx) [0..<H] (FLT_MAX, H);
              if new_hub \<noteq> current_hub then
                if new_hub < H then
                  if minimal_dist < FLT_MAX then
                    do {
                      cn \<leftarrow> rd initial_counts new_hub;
                      if cn \<ge> k then
                        do {
                          dn \<leftarrow> rd distances (new_hub * n + idx);
                          dc \<leftarrow> rd distances (current_hub * n + idx);
                          if dn \<ge> dc then
                            do {
                              dH_assignments \<leftarrow> wr dH_assignments idx new_hub;
                              old \<leftarrow> rd hub_counts new_hub;
                              hub_counts \<leftarrow> wr hub_counts new_hub (old + 1);
                              Some (hub_counts, dH_assignments)
                            }
                          else None
                        }
                      else None
                    }
                  else None
                else None
              else None
            }
          else Some (hub_counts, dH_assignments)
        })"

text \<open>
  One thread: it reassigns its point when its index is below \<open>n\<close>, and resets the
  counter of its hub when its index is below \<open>H\<close> and the hub had fewer than \<open>k\<close> points.
\<close>

definition reassignPoints_thread ::
  "nat \<Rightarrow> nat \<Rightarrow> nat \<Rightarrow> real list \<Rightarrow> nat list \<Rightarrow> nat list \<times> nat list \<Rightarrow> nat
     \<Rightarrow> (nat list \<times> nat list) option" where
  "reassignPoints_thread H n k distances initial_counts s idx =
     do {
       (hub_counts, dH_assignments) \<leftarrow>
         (if idx < n then reassign_point H n k distances initial_counts s idx else Some s);
       if idx < H then
         do {
           c \<leftarrow> rd initial_counts idx;
           if c < k then
             do { hub_counts \<leftarrow> wr hub_counts idx 0; Some (hub_counts, dH_assignments) }
           else Some (hub_counts, dH_assignments)
         }
       else Some (hub_counts, dH_assignments)
     }"

text \<open>
  The kernel, with its two leading assertions (\<open>k < n\<close>, and one shared-memory lane for
  each hub) and the copy of the counters to shared memory.
\<close>

definition reassignPoints ::
  "nat \<Rightarrow> nat \<Rightarrow> nat \<Rightarrow> nat \<Rightarrow> real list \<Rightarrow> nat list \<times> nat list
     \<Rightarrow> (nat list \<times> nat list) option" where
  "reassignPoints H n k threads distances s =
     (if k < n \<and> H < 1024 \<and> H \<le> threads \<and> threads \<le> 1024 then
        do {
          initial_counts \<leftarrow> those_opt (map (rd (fst s)) [0..<H]);
          run_warps (reassignPoints_thread H n k distances initial_counts) [0..<threads] s
        }
      else None)"

text \<open>The population of a hub under an assignment table.\<close>

definition population :: "nat list \<Rightarrow> nat \<Rightarrow> nat" where
  "population dH_assignments h = count_list dH_assignments h"

text \<open>
  The state after the first \<open>m\<close> threads of the kernel, started on the counters
  \<open>cnt0\<close> and the assignments \<open>asg0\<close>: the points of the first \<open>m\<close> threads are
  settled, the counter of a hub that had \<open>k\<close> points is its population, and the
  counters of the other hubs are reset up to \<open>m\<close>.
\<close>

definition rebalanced ::
  "nat \<Rightarrow> nat \<Rightarrow> nat \<Rightarrow> real list \<Rightarrow> nat list \<Rightarrow> nat list \<Rightarrow> nat \<Rightarrow> nat list \<times> nat list \<Rightarrow> bool" where
  "rebalanced H n k ds cnt0 asg0 m s \<longleftrightarrow>
     (case s of (cnt, asg) \<Rightarrow>
        length asg = n \<and> length cnt = length cnt0 \<and>
        (\<forall>p < n. (p < m \<longrightarrow> asg0 ! p < H \<and>
                     (if cnt0 ! (asg0 ! p) < k
                      then asg ! p < H \<and> k \<le> cnt0 ! (asg ! p) \<and>
                           (\<forall>h < H. k \<le> cnt0 ! h \<longrightarrow> ds ! (asg ! p * n + p) \<le> ds ! (h * n + p))
                      else asg ! p = asg0 ! p)) \<and>
                  (m \<le> p \<longrightarrow> asg ! p = asg0 ! p)) \<and>
        (\<forall>h < H. k \<le> cnt0 ! h \<longrightarrow> cnt ! h = population asg h \<and> cnt0 ! h \<le> cnt ! h) \<and>
        (\<forall>h < H. cnt0 ! h < k \<longrightarrow> cnt ! h = (if h < m then 0 else cnt0 ! h)))"

text \<open>
  Three points and 32 hubs with \<open>k = 2\<close>. In the first cloud hub 0 holds two points
  and hub 1 one; the distance table is 1 everywhere but for the distance 5 from point 2
  to hub 0. In the second cloud three hubs hold one point each.
\<close>

definition ex_ds :: "real list" where
  "ex_ds = map (\<lambda>i. if i = 2 then 5 else 1) [0..<96]"

definition ex_cnt :: "nat list" where
  "ex_cnt = [2, 1, 0, 0, 0, 0, 0, 0, 0, 0, 0, 0, 0, 0, 0, 0, 0, 0, 0, 0, 0, 0, 0, 0, 0, 0, 0, 0,
     0, 0, 0, 0, 0]"

definition ex_cnt_low :: "nat list" where
  "ex_cnt_low = [1, 1, 1, 0, 0, 0, 0, 0, 0, 0, 0, 0, 0, 0, 0, 0, 0, 0, 0, 0, 0, 0, 0, 0, 0, 0, 0,
     0, 0, 0, 0, 0, 0]"

section \<open>Bucketing: \<^verbatim>\<open>BucketSort\<close>\<close>

text \<open>
  The arrays that the kernel writes: the bucketed coordinates and identifiers, and the
  write cursors (the array \<^verbatim>\<open>dH_psum_copy\<close> of \<^verbatim>\<open>C_and_Q\<close>), which it advances with
  \<^verbatim>\<open>atomicAdd\<close>.
\<close>

record bucket_state =
  bk_arr_x :: "real list"
  bk_arr_y :: "real list"
  bk_arr_z :: "real list"
  bk_arr_idx :: "nat list"
  bk_psum :: "nat list"

text \<open>
  One thread. The atomic increment returns the old value of the cursor; the cells that
  the thread then writes belong to it alone, so the thread is modelled as one step.
\<close>

definition BucketSort_thread ::
  "nat \<Rightarrow> real list \<Rightarrow> nat list \<Rightarrow> bucket_state \<Rightarrow> nat \<Rightarrow> bucket_state option" where
  "BucketSort_thread n points dH_assignments st idx =
     (if idx < n then
        do {
          hub_idx \<leftarrow> rd dH_assignments idx;
          loc \<leftarrow> rd (bk_psum st) hub_idx;
          psum \<leftarrow> wr (bk_psum st) hub_idx (loc + 1);
          p_x \<leftarrow> rd points (idx * dim + 0);
          arr_x \<leftarrow> wr (bk_arr_x st) loc p_x;
          p_y \<leftarrow> rd points (idx * dim + 1);
          arr_y \<leftarrow> wr (bk_arr_y st) loc p_y;
          p_z \<leftarrow> rd points (idx * dim + 2);
          arr_z \<leftarrow> wr (bk_arr_z st) loc p_z;
          arr_idx \<leftarrow> wr (bk_arr_idx st) loc idx;
          Some \<lparr>bk_arr_x = arr_x, bk_arr_y = arr_y, bk_arr_z = arr_z, bk_arr_idx = arr_idx,
                bk_psum = psum\<rparr>
        }
      else Some st)"

text \<open>
  The kernel. The order in which the threads take their slots is not fixed: it is the
  argument \<open>order\<close>, an arrangement of the threads of the grid.
\<close>

definition BucketSort ::
  "nat \<Rightarrow> nat list \<Rightarrow> real list \<Rightarrow> nat list \<Rightarrow> bucket_state \<Rightarrow> bucket_state option" where
  "BucketSort n order points dH_assignments st =
     run_warps (BucketSort_thread n points dH_assignments) order st"

text \<open>The grid of the launch in \<^verbatim>\<open>C_and_Q\<close>: \<open>(n + 1023) div 1024\<close> blocks of 1024 threads.\<close>

definition BucketSort_grid :: "nat \<Rightarrow> nat" where
  "BucketSort_grid n = (n + 1024 - 1) div 1024 * 1024"

text \<open>
  The exclusive prefix sum of the populations: the start of the segment of hub \<open>h\<close>, and
  for \<open>h = H\<close> the number of points.
\<close>

definition segment_start :: "nat list \<Rightarrow> nat \<Rightarrow> nat" where
  "segment_start dH_assignments h = sum_list (map (population dH_assignments) [0..<h])"

text \<open>Point \<open>p\<close> stands at position \<open>loc\<close> of the bucketed arrays.\<close>

definition placed :: "real list \<Rightarrow> bucket_state \<Rightarrow> nat \<Rightarrow> nat \<Rightarrow> bool" where
  "placed points st p loc \<longleftrightarrow>
     bk_arr_idx st ! loc = p \<and> bk_arr_x st ! loc = points ! (p * dim) \<and>
     bk_arr_y st ! loc = points ! (p * dim + 1) \<and> bk_arr_z st ! loc = points ! (p * dim + 2)"

text \<open>
  The state after the threads of the set \<open>seen\<close> have run: the cursor of a hub has
  advanced by the number of its points among them, and each of these points stands in
  the segment of its hub, below the cursor.
\<close>

definition bucketed ::
  "nat \<Rightarrow> nat \<Rightarrow> real list \<Rightarrow> nat list \<Rightarrow> nat set \<Rightarrow> bucket_state \<Rightarrow> bool" where
  "bucketed H n points asg seen st \<longleftrightarrow>
     length (bk_arr_x st) = n \<and> length (bk_arr_y st) = n \<and> length (bk_arr_z st) = n \<and>
     length (bk_arr_idx st) = n \<and> H < length (bk_psum st) \<and>
     (\<forall>h < H. bk_psum st ! h =
        segment_start asg h + card {p \<in> seen. p < n \<and> asg ! p = h}) \<and>
     (\<forall>p \<in> seen. p < n \<longrightarrow>
        (\<exists>loc. segment_start asg (asg ! p) \<le> loc \<and> loc < bk_psum st ! (asg ! p) \<and>
           placed points st p loc))"

text \<open>
  Two points of 32 hubs, point 0 in hub 1 and point 1 in hub 0, with the cursors at the
  starts of the segments.
\<close>

definition ex_bucket :: bucket_state where
  "ex_bucket = \<lparr>bk_arr_x = [9, 9], bk_arr_y = [9, 9], bk_arr_z = [9, 9], bk_arr_idx = [7, 7],
     bk_psum = 0 # 1 # replicate 31 2\<rparr>"

section \<open>The prefix sum: \<^verbatim>\<open>fused_prefix_sum_copy\<close>\<close>

subsection \<open>\<^verbatim>\<open>prefix_sum_warp\<close>\<close>

text \<open>
  The values of the 32 lanes of a warp are a list. \<^verbatim>\<open>__shfl_up_sync\<close> hands lane \<open>l\<close>
  the value of lane \<open>l - stride\<close>, and its own value when there is no such lane.
\<close>

definition shfl_up :: "nat list \<Rightarrow> nat \<Rightarrow> nat list" where
  "shfl_up vals stride =
     map (\<lambda>lane. if stride \<le> lane then vals ! (lane - stride) else vals ! lane)
       [0..<length vals]"

text \<open>One pass of the loop: the lanes at or above the stride add the paired value.\<close>

definition prefix_sum_pass :: "nat list \<Rightarrow> nat \<Rightarrow> nat list" where
  "prefix_sum_pass vals stride =
     map (\<lambda>lane. if stride \<le> lane then vals ! lane + shfl_up vals stride ! lane
                  else vals ! lane)
       [0..<length vals]"

text \<open>The loop \<^verbatim>\<open>for (stride = 1; stride < warp_size; stride = stride << 1)\<close>.\<close>

function prefix_sum_loop :: "nat \<Rightarrow> nat list \<Rightarrow> nat list" where
  "prefix_sum_loop stride vals =
     (if 0 < stride \<and> stride < 32 then prefix_sum_loop (2 * stride) (prefix_sum_pass vals stride)
      else vals)"
  by pat_completeness auto
termination
  by (relation "measure (\<lambda>(stride, vals). 32 - stride)") auto

declare prefix_sum_loop.simps [simp del]

definition prefix_sum_warp :: "nat list \<Rightarrow> nat list" where
  "prefix_sum_warp vals = prefix_sum_loop 1 vals"

subsection \<open>The kernel\<close>

text \<open>
  The assertion \<^verbatim>\<open>__popc(H) == 1\<close>: exactly one of the 32 bits of \<open>H\<close> is set.
\<close>

definition popc_is_1 :: "nat \<Rightarrow> bool" where
  "popc_is_1 H = list_ex (\<lambda>m. H = 2 ^ m) [0..<32]"

text \<open>
  The kernel runs as one block of 32 warps of 32 lanes; thread \<open>32 * w + l\<close> handles
  the cell \<open>1024 * c + 32 * w + l\<close> in the pass \<open>c\<close> of its loop, when that cell is
  below \<open>H\<close>. With \<open>H\<close> a multiple of 32 a warp is active as a whole or not at all. The
  shared array \<^verbatim>\<open>smem\<close> has 33 cells, of which only cell 0 is initialised: the first
  contents of the others are an argument of the model.

  One pass, between its barriers: every active warp scans its 32 cells and its last lane
  stores the total in \<^verbatim>\<open>smem[warp_id + 1]\<close>; warp 0 scans the 32 staged totals, the
  first with \<^verbatim>\<open>smem[0]\<close> added, stores them back and keeps the last as the sum of the
  chunks so far; every active thread adds \<^verbatim>\<open>smem[warp_id]\<close> and writes its cell of both
  arrays; the last lane of warp 0 stores the sum of the chunks so far in \<^verbatim>\<open>smem[0]\<close>.
  The lanes of a warp run in lock step.

  The barriers of a pass stand before and after the scan of the staged totals. Nothing
  separates the read of \<^verbatim>\<open>smem[warp_id]\<close> that ends a pass from the store into
  \<^verbatim>\<open>smem[warp_id + 1]\<close> that begins the next one: warp \<open>w - 1\<close> may already have stored
  its total of the next chunk in \<^verbatim>\<open>smem[w]\<close> when warp \<open>w\<close> reads that cell. It cannot
  be further ahead, since it then waits at the first barrier of the next pass. The
  schedule is an argument of the model: \<open>late c w\<close> says that in pass \<open>c\<close> warp \<open>w\<close> reads
  its cell after that store. The read is then stale when warp \<open>w - 1\<close> has a next pass;
  the cells of the next chunk, from which that total is scanned, are still those of the
  input.
\<close>

definition stale_read :: "nat \<Rightarrow> (nat \<Rightarrow> nat \<Rightarrow> bool) \<Rightarrow> nat \<Rightarrow> nat \<Rightarrow> bool" where
  "stale_read H late c w \<longleftrightarrow> late c w \<and> 0 < w \<and> 1024 * (c + 1) + 32 * (w - 1) < H"

definition warp_scan :: "nat list \<Rightarrow> nat \<Rightarrow> nat \<Rightarrow> nat list" where
  "warp_scan arr base w = prefix_sum_warp (map (\<lambda>lane. arr ! (base + 32 * w + lane)) [0..<32])"

definition stage_totals :: "nat \<Rightarrow> nat list \<Rightarrow> nat \<Rightarrow> nat list \<Rightarrow> nat list" where
  "stage_totals H arr base smem =
     fold (\<lambda>w s. if base + 32 * w < H then s[w + 1 := warp_scan arr base w ! 31] else s)
       [0..<32] smem"

definition scan_totals :: "nat list \<Rightarrow> nat list" where
  "scan_totals smem =
     prefix_sum_warp
       (map (\<lambda>lane. smem ! (lane + 1) + smem ! 0 * (if lane = 0 then 1 else 0)) [0..<32])"

definition broadcast_totals :: "nat list \<Rightarrow> nat list \<Rightarrow> nat list" where
  "broadcast_totals warp_level_sum smem =
     fold (\<lambda>lane s. s[lane + 1 := warp_level_sum ! lane]) [0..<32] smem"

definition chunk_pass ::
  "nat \<Rightarrow> (nat \<Rightarrow> nat \<Rightarrow> bool) \<Rightarrow> nat list \<times> nat list \<times> nat list \<Rightarrow> nat
     \<Rightarrow> (nat list \<times> nat list \<times> nat list) option" where
  "chunk_pass H late s c =
     (case s of (arr, copy, smem) \<Rightarrow>
        let base = 1024 * c;
            smem1 = stage_totals H arr base smem;
            warp_level_sum = scan_totals smem1;
            smem2 = broadcast_totals warp_level_sum smem1;
            sum_of_chunk_sofar = warp_level_sum ! 31;
            smem_read = (\<lambda>w. if stale_read H late c w
                              then warp_scan arr (base + 1024) (w - 1) ! 31 else smem2 ! w);
            my_val = (\<lambda>i. warp_scan arr base ((i - base) div 32) ! ((i - base) mod 32)
                           + smem_read ((i - base) div 32));
            written = (\<lambda>i. base \<le> i \<and> i < base + 1024 \<and> i < H)
        in if H \<le> length arr \<and> H \<le> length copy then
             Some (map (\<lambda>i. if written i then my_val i else arr ! i) [0..<length arr],
                   map (\<lambda>i. if written i then my_val i else copy ! i) [0..<length copy],
                   smem2[0 := sum_of_chunk_sofar])
           else None)"

text \<open>
  The kernel, with its two assertions. \<open>smem\<close> holds the first contents of the shared
  array; thread 0 sets cell 0 to 0. The loop of a thread has \<open>(H + 1023) div 1024\<close>
  passes.
\<close>

definition fused_prefix_sum_copy ::
  "nat \<Rightarrow> (nat \<Rightarrow> nat \<Rightarrow> bool) \<Rightarrow> nat list \<Rightarrow> nat list \<times> nat list
     \<Rightarrow> (nat list \<times> nat list) option" where
  "fused_prefix_sum_copy H late smem s =
     (if popc_is_1 H \<and> 32 \<le> H \<and> length smem = 33 then
        (case run_warps (chunk_pass H late) [0..<(H + 1023) div 1024]
                (fst s, snd s, smem[0 := 0]) of
           None \<Rightarrow> None
         | Some (arr, copy, _) \<Rightarrow> Some (arr, copy))
      else None)"

subsection \<open>The offsets in \<^verbatim>\<open>C_and_Q\<close>\<close>

text \<open>
  \<^verbatim>\<open>C_and_Q\<close> runs the kernel on the counters \<^verbatim>\<open>dH_psum\<close> (\<open>H + 1\<close> cells) and the zeroed
  \<^verbatim>\<open>dH_psum_copy\<close>, copies the copy to a placeholder, copies the first \<open>H\<close> cells of
  the placeholder to the cells 1 to \<open>H\<close> of both arrays, and zeroes their cells 0. It
  returns the offsets and the cursors of the bucket sort.
\<close>

definition C_and_Q_offsets ::
  "nat \<Rightarrow> (nat \<Rightarrow> nat \<Rightarrow> bool) \<Rightarrow> nat list \<Rightarrow> nat list \<Rightarrow> (nat list \<times> nat list) option" where
  "C_and_Q_offsets H late smem dH_psum =
     do {
       (arr, dH_psum_copy) \<leftarrow> fused_prefix_sum_copy H late smem (dH_psum, replicate (H + 1) 0);
       let d_psum_placeholder = dH_psum_copy;
       if length arr = H + 1 \<and> length dH_psum_copy = H + 1 then
         Some (0 # take H d_psum_placeholder, 0 # take H d_psum_placeholder)
       else None
     }"

text \<open>The entry \<open>i\<close> of the offset table that the step returns.\<close>

definition offset_at :: "(nat list \<times> nat list) option \<Rightarrow> nat \<Rightarrow> nat option" where
  "offset_at r i = (case r of None \<Rightarrow> None | Some (offset, cursors) \<Rightarrow> Some (offset ! i))"

text \<open>
  Populations for \<open>H = 2048\<close> and \<open>n = 1024\<close>: one point in each of the first 1024 hubs.
  In the schedule \<open>ex_late\<close> warp 1 reads its cell late in the first pass.
\<close>

definition ex_counts_2048 :: "nat list" where
  "ex_counts_2048 = replicate 1024 1 @ replicate 1025 0"

definition ex_late :: "nat \<Rightarrow> nat \<Rightarrow> bool" where
  "ex_late c w \<longleftrightarrow> c = 0 \<and> w = 1"

subsection \<open>Invariants of the scan\<close>

text \<open>
  After the passes of \<^verbatim>\<open>prefix_sum_warp\<close> up to a stride \<open>s\<close>, lane \<open>l\<close> holds the sum of
  the \<open>s\<close> first values ending at lane \<open>l\<close>.
\<close>

definition windowed :: "nat list \<Rightarrow> nat list \<Rightarrow> nat \<Rightarrow> bool" where
  "windowed vals v s \<longleftrightarrow>
     length v = length vals \<and> (\<forall>l < length vals. v ! l = sum ((!) vals) {l + 1 - s..<l + 1})"

text \<open>The sum of the first \<open>i\<close> cells.\<close>

definition psum :: "nat list \<Rightarrow> nat \<Rightarrow> nat" where
  "psum a i = (\<Sum>j < i. a ! j)"

text \<open>
  After \<open>c\<close> passes of the kernel on the arrays \<open>a0\<close> and \<open>c0\<close>: the cells of the first
  \<open>c\<close> chunks hold their inclusive prefix sums in both arrays, the other cells of the
  input are untouched, and \<^verbatim>\<open>smem[0]\<close> holds the sum of the chunks done.
\<close>

definition scanned :: "nat \<Rightarrow> nat list \<Rightarrow> nat list \<Rightarrow> nat \<Rightarrow> nat list \<times> nat list \<times> nat list \<Rightarrow> bool" where
  "scanned H a0 c0 c s \<longleftrightarrow> (case s of (arr, copy, smem) \<Rightarrow>
     length arr = length a0 \<and> length copy = length c0 \<and> length smem = 33 \<and>
     (\<forall>i < length a0. arr ! i = (if i < H \<and> i < 1024 * c then psum a0 (i + 1) else a0 ! i)) \<and>
     (\<forall>i. i < H \<and> i < 1024 * c \<longrightarrow> copy ! i = psum a0 (i + 1)) \<and>
     (1024 * c \<le> H \<longrightarrow> smem ! 0 = psum a0 (1024 * c)))"

section \<open>The ranked hub tables: \<^verbatim>\<open>fused_transform_sort_D\<close>\<close>

text \<open>
  Block \<open>hub_id\<close> sorts row \<open>hub_id\<close> of \<open>D\<close>. Its threads are the pairs
  (\<^verbatim>\<open>lane_id\<close>, \<^verbatim>\<open>warp_id\<close>) of a 32 by 32 block, \<^verbatim>\<open>sort_id = warp_id * 32 + lane_id\<close>;
  thread \<^verbatim>\<open>sort_id\<close> keeps in registers the cells \<^verbatim>\<open>sort_id + block_size * r\<close>,
  \<open>r < ROUNDS\<close>, of the row, and leaves at once when \<^verbatim>\<open>sort_id >= H\<close>. The row under
  construction is the list of these registers, indexed by \<^verbatim>\<open>global_lane_id\<close>: a cell is
  a distance with a hub identifier.
\<close>

type_synonym cell = "real \<times> nat"

definition block_size :: nat where
  "block_size = 1024"

text \<open>The template argument of the launch in \<^verbatim>\<open>C_and_Q\<close>.\<close>

definition ROUNDS :: "nat \<Rightarrow> nat" where
  "ROUNDS H = (H + block_size - 1) div block_size"

subsection \<open>One step of a merge\<close>

text \<open>
  The test under which a thread takes the cell of its partner
  \<^verbatim>\<open>global_lane_id ^ stride\<close>, with its four cases as in the source.
\<close>

definition swaps :: "nat \<Rightarrow> nat \<Rightarrow> cell list \<Rightarrow> nat \<Rightarrow> bool" where
  "swaps coop stride xs global_lane_id =
     (let paired_thread = global_lane_id XOR stride;
          paired_dist = fst (xs ! paired_thread);
          dist = fst (xs ! global_lane_id)
      in (paired_thread > global_lane_id \<and> global_lane_id AND coop = 0 \<and> paired_dist < dist) \<or>
         (paired_thread < global_lane_id \<and> global_lane_id AND coop \<noteq> 0 \<and> paired_dist < dist) \<or>
         (paired_thread > global_lane_id \<and> global_lane_id AND coop \<noteq> 0 \<and> paired_dist > dist) \<or>
         (paired_thread < global_lane_id \<and> global_lane_id AND coop = 0 \<and> paired_dist > dist))"

text \<open>
  Every thread stores its cell in the shared array, the block waits at the barrier, and
  every thread reads the cell of its partner and decides. A partner outside the row is a
  read outside the shared array: \<open>None\<close>. The identifier crosses the shared array as a
  float and comes back unchanged: identifiers are below \<open>H\<close>, and the conversion is exact
  below \<open>2\<^sup>2\<^sup>4\<close>, far above any \<open>H\<close> whose shared array of \<open>2 * H\<close> floats fits a block.
\<close>

definition merge_step :: "nat \<Rightarrow> nat \<Rightarrow> cell list \<Rightarrow> cell list option" where
  "merge_step coop stride xs =
     (if list_all (\<lambda>g. g XOR stride < length xs) [0..<length xs] then
        Some (map (\<lambda>g. if swaps coop stride xs g then xs ! (g XOR stride) else xs ! g)
                [0..<length xs])
      else None)"

text \<open>The loop \<^verbatim>\<open>for (stride = coop >> 1; stride >= warp_size; stride = stride >> 1)\<close>.\<close>

function merge_strides :: "nat \<Rightarrow> nat \<Rightarrow> cell list \<Rightarrow> cell list option" where
  "merge_strides coop stride xs =
     (if warp_size \<le> stride then
        (case merge_step coop stride xs of
           None \<Rightarrow> None
         | Some ys \<Rightarrow> merge_strides coop (stride div 2) ys)
      else Some xs)"
  by pat_completeness auto
termination
  by (relation "measure (\<lambda>(coop, stride, xs). stride)") (auto simp: warp_size_def)

declare merge_strides.simps [simp del]

subsection \<open>The sort inside a warp\<close>

text \<open>
  Modelled from the spec: \<^verbatim>\<open>bitonic::sort\<close> of \<^verbatim>\<open>bitonic-shared.cuh\<close> is not among the
  sources. The spec has the threads ``build independent sorted runs of local width (one
  synchronization group each), alternating ascending/descending direction''. The sort of
  a warp is an argument \<open>wsort\<close> of the model: given the direction and the 32 cells of
  the lanes, it returns the cells of the lanes afterwards. A \<open>warp_sorter\<close> returns the
  same cells, in non-decreasing order of distance when the direction is ascending and in
  non-increasing order otherwise. \<open>spec_warp_sort\<close> is one.
\<close>

definition warp_sorter :: "(bool \<Rightarrow> cell list \<Rightarrow> cell list) \<Rightarrow> bool" where
  "warp_sorter wsort \<longleftrightarrow>
     (\<forall>asc xs. length xs = warp_size \<longrightarrow>
        mset (wsort asc xs) = mset xs \<and>
        (if asc then sorted (map fst (wsort asc xs)) else sorted (rev (map fst (wsort asc xs)))))"

definition spec_warp_sort :: "bool \<Rightarrow> cell list \<Rightarrow> cell list" where
  "spec_warp_sort asc xs = (if asc then sort_key fst xs else rev (sort_key fst xs))"

text \<open>
  The cells of warp \<open>w\<close>, and the row after every warp has sorted its cells. In the source
  every lane computes the direction; the lanes of a warp agree on it, and the model
  computes it once for the warp.
\<close>

definition warp_of :: "cell list \<Rightarrow> nat \<Rightarrow> cell list" where
  "warp_of xs w = take warp_size (drop (warp_size * w) xs)"

definition sort_warps :: "(bool \<Rightarrow> cell list \<Rightarrow> cell list) \<Rightarrow> (nat \<Rightarrow> bool) \<Rightarrow> cell list \<Rightarrow> cell list" where
  "sort_warps wsort asc xs =
     concat (map (\<lambda>w. wsort (asc w) (warp_of xs w)) [0..<CEIL_DIV (length xs) warp_size])"

subsection \<open>The kernel\<close>

text \<open>
  The loop \<^verbatim>\<open>for (coop = warp_size << 1; coop <= H; coop = coop << 1)\<close>: the merge steps
  through the shared array, then the sort of every warp, ascending where
  \<^verbatim>\<open>(global_lane_id & coop) == 0\<close>.
\<close>

function coop_loop ::
  "(bool \<Rightarrow> cell list \<Rightarrow> cell list) \<Rightarrow> nat \<Rightarrow> nat \<Rightarrow> cell list \<Rightarrow> cell list option" where
  "coop_loop wsort H coop xs =
     (if 0 < coop \<and> coop \<le> H then
        (case merge_strides coop (coop div 2) xs of
           None \<Rightarrow> None
         | Some ys \<Rightarrow>
             coop_loop wsort H (2 * coop)
               (sort_warps wsort (\<lambda>w. (warp_size * w) AND coop = 0) ys))
      else Some xs)"
  by pat_completeness auto
termination
  by (relation "measure (\<lambda>(wsort, H, coop, xs). H + 1 - coop)") auto

declare coop_loop.simps [simp del]

text \<open>
  One block: the cell \<open>sort_id\<close> starts as the distance \<^verbatim>\<open>D[H * hub_id + sort_id]\<close> with
  the identifier \<open>sort_id\<close>; every warp sorts its cells, ascending when \<^verbatim>\<open>warp_id\<close> is
  even (the warp of the cell \<open>sort_id + block_size * r\<close> has the parity of \<^verbatim>\<open>warp_id\<close>);
  then the merges.
\<close>

definition sort_row ::
  "(bool \<Rightarrow> cell list \<Rightarrow> cell list) \<Rightarrow> nat \<Rightarrow> real list \<Rightarrow> nat \<Rightarrow> cell list option" where
  "sort_row wsort H D hub_id =
     coop_loop wsort H (2 * warp_size)
       (sort_warps wsort even (map (\<lambda>sort_id. (D ! (H * hub_id + sort_id), sort_id)) [0..<H]))"

text \<open>
  The grid of \<open>H\<close> blocks. Block \<open>hub_id\<close> writes the identifiers of its row to
  \<^verbatim>\<open>sorted_hub_ids[hub_id * H + ..]\<close> and the distances to
  \<^verbatim>\<open>sorted_hub_dist[hub_id * H + ..]\<close>. The kernel reads all of \<open>D\<close>, and the last cell a
  thread touches, \<^verbatim>\<open>sort_id + block_size * (ROUNDS - 1)\<close>, must be a cell of the row.
\<close>

definition fused_transform_sort_D ::
  "(bool \<Rightarrow> cell list \<Rightarrow> cell list) \<Rightarrow> nat \<Rightarrow> real list \<Rightarrow> (nat list \<times> real list) option" where
  "fused_transform_sort_D wsort H D =
     (if H * H \<le> length D \<and> block_size * (ROUNDS H - 1) + min H block_size \<le> H then
        do {
          rows \<leftarrow> those_opt (map (sort_row wsort H D) [0..<H]);
          Some (concat (map (map snd) rows), concat (map (map fst) rows))
        }
      else None)"

text \<open>Row \<open>i\<close> of a row-major \<open>H\<close> by \<open>H\<close> matrix.\<close>

definition matrix_row :: "nat \<Rightarrow> 'a list \<Rightarrow> nat \<Rightarrow> 'a list" where
  "matrix_row H M i = take H (drop (H * i) M)"

subsection \<open>Invariants of the network\<close>

text \<open>
  A predicate on the positions \<open>lo, \<dots>, lo + n - 1\<close> is bitonic when it, or its negation,
  holds exactly on an interval of them.
\<close>

definition bitonic01 :: "(nat \<Rightarrow> bool) \<Rightarrow> nat \<Rightarrow> nat \<Rightarrow> bool" where
  "bitonic01 s lo n \<longleftrightarrow>
     (\<exists>a b. a \<le> b \<and> b \<le> n \<and>
        ((\<forall>i < n. s (lo + i) \<longleftrightarrow> a \<le> i \<and> i < b) \<or>
         (\<forall>i < n. s (lo + i) \<longleftrightarrow> \<not> (a \<le> i \<and> i < b))))"

text \<open>
  In the course of a merge, a span of \<open>n\<close> blocks of \<open>L\<close> positions: every block is
  bitonic, and once the predicate holds somewhere in a block it holds everywhere in the
  later blocks.
\<close>

definition staged :: "(nat \<Rightarrow> bool) \<Rightarrow> nat \<Rightarrow> nat \<Rightarrow> bool" where
  "staged s n L \<longleftrightarrow>
     (\<forall>b < n. bitonic01 s (b * L) L) \<and>
     (\<forall>b1 b2 r1 r2. b1 < b2 \<and> b2 < n \<and> r1 < L \<and> r2 < L \<longrightarrow> s (b1 * L + r1) \<longrightarrow> s (b2 * L + r2))"

text \<open>
  What a merge step at distance \<open>h\<close> does to the predicate: the lower position of a pair
  gets the conjunction and the upper one the disjunction.
\<close>

definition half_cleaned :: "(nat \<Rightarrow> bool) \<Rightarrow> (nat \<Rightarrow> bool) \<Rightarrow> nat \<Rightarrow> nat \<Rightarrow> bool" where
  "half_cleaned s s' n h \<longleftrightarrow>
     (\<forall>b < n. \<forall>r < h.
        (s' (b * (2 * h) + r) \<longleftrightarrow> s (b * (2 * h) + r) \<and> s (b * (2 * h) + h + r)) \<and>
        (s' (b * (2 * h) + h + r) \<longleftrightarrow> s (b * (2 * h) + r) \<or> s (b * (2 * h) + h + r)))"

text \<open>
  The predicates followed through the network: for a threshold \<open>t\<close>, a distance above
  \<open>t\<close> where the span sorts ascending, a distance at most \<open>t\<close> where it sorts descending.
\<close>

definition thr :: "bool \<Rightarrow> real \<Rightarrow> cell \<Rightarrow> bool" where
  "thr asc t x = (if asc then t < fst x else fst x \<le> t)"

definition sig :: "nat \<Rightarrow> cell list \<Rightarrow> real \<Rightarrow> nat \<Rightarrow> bool" where
  "sig coop xs t g = (if g AND coop = 0 then t < fst (xs ! g) else fst (xs ! g) \<le> t)"

text \<open>
  The run of \<open>c\<close> cells from \<open>lo\<close> is sorted in the given direction; the row is made of
  \<open>n\<close> runs of \<open>c\<close> cells, sorted ascending and descending in turn.
\<close>

definition run_sorted :: "cell list \<Rightarrow> bool \<Rightarrow> nat \<Rightarrow> nat \<Rightarrow> bool" where
  "run_sorted xs asc lo c \<longleftrightarrow>
     (\<forall>i j. i \<le> j \<and> j < c \<longrightarrow>
        (if asc then fst (xs ! (lo + i)) \<le> fst (xs ! (lo + j))
         else fst (xs ! (lo + j)) \<le> fst (xs ! (lo + i))))"

definition runs :: "cell list \<Rightarrow> nat \<Rightarrow> nat \<Rightarrow> bool" where
  "runs xs c n \<longleftrightarrow> (\<forall>b < n. run_sorted xs (even b) (b * c) c)"

text \<open>A distance matrix for \<open>H = 32\<close>.\<close>

definition ex_D :: "real list" where
  "ex_D = map (\<lambda>c. real ((7 * c) mod 32)) [0..<1024]"

section \<open>Theorems\<close>

subsection \<open>Launches and checked arrays\<close>

lemma those_opt_map_Some:
  "(\<And>x. x \<in> set xs \<Longrightarrow> f x = Some (g x)) \<Longrightarrow> those_opt (map f xs) = Some (map g xs)"
  by (induction xs) auto

lemma rd_map_upt: "rd (map f [0..<m]) i = (if i < m then Some (f i) else None)"
  by (simp add: rd_def)

lemma run_warps_append:
  "run_warps f (xs @ ys) s = run_warps f xs s \<bind> run_warps f ys"
  by (induction xs arbitrary: s) (auto split: option.splits)

lemma run_warps_single: "run_warps f [w] = (\<lambda>s. f s w)"
  by (rule ext) (simp split: option.splits)

lemma run_warps_upt_Suc:
  "run_warps f [0..<Suc m] s = run_warps f [0..<m] s \<bind> (\<lambda>s1. f s1 m)"
  by (simp add: run_warps_append run_warps_single)

lemma run_warps_upt_SucE:
  assumes "run_warps f [0..<Suc m] s = Some s'"
  obtains s1 where "run_warps f [0..<m] s = Some s1" "f s1 m = Some s'"
proof -
  from assms have "run_warps f [0..<m] s \<bind> (\<lambda>s1. f s1 m) = Some s'"
    by (simp only: run_warps_upt_Suc)
  then show ?thesis using that by (auto split: Option.bind_splits)
qed

lemma run_warps_idle:
  "(\<And>w s. w \<in> set ws \<Longrightarrow> f s w = Some s) \<Longrightarrow> run_warps f ws s = Some s"
  by (induction ws arbitrary: s) auto

lemma wr_SomeE:
  assumes "wr xs i v = Some ys"
  obtains "i < length xs" "ys = xs[i := v]"
  using assms by (auto simp: wr_def split: if_splits)

lemma rd_SomeE:
  assumes "rd xs i = Some v"
  obtains "i < length xs" "v = xs ! i"
  using assms by (auto simp: rd_def split: if_splits)

lemma upt_2: "[0..<2] = [0, 1]" by code_simp

lemma wr_simps:
  "wr [] i v = None"
  "wr (x # xs) 0 v = Some (v # xs)"
  "wr (x # xs) (Suc n) v = map_option ((#) x) (wr xs n v)"
  by (simp_all add: wr_def)

lemma rd_simps:
  "rd [] i = None"
  "rd (x # xs) 0 = Some x"
  "rd (x # xs) (Suc n) = rd xs n"
  "rd (x # xs) (numeral k) = rd xs (pred_numeral k)"
  "rd (replicate m x) i = (if i < m then Some x else None)"
  by (simp_all add: rd_def numeral_eq_Suc)


lemma those_opt_nth:
  "those_opt os = Some ys \<Longrightarrow> length ys = length os \<and> (\<forall>i < length os. os ! i = Some (ys ! i))"
proof (induction os arbitrary: ys)
  case Nil
  then show ?case by simp
next
  case (Cons a os)
  then obtain x xs where a: "a = Some x" "those_opt os = Some xs" "ys = x # xs"
    by (cases a; cases "those_opt os") auto
  with Cons.IH [OF a(2)] show ?case by (auto simp: nth_Cons split: nat.splits)
qed

lemma those_opt_map_rd:
  "H \<le> length xs \<Longrightarrow> those_opt (map (rd xs) [0..<H]) = Some (take H xs)"
proof -
  assume "H \<le> length xs"
  then have "those_opt (map (rd xs) [0..<H]) = Some (map ((!) xs) [0..<H])"
    by (intro those_opt_map_Some) (simp add: rd_def)
  moreover have "map ((!) xs) [0..<H] = take H xs"
    using \<open>H \<le> length xs\<close> by (simp add: list_eq_iff_nth_eq)
  ultimately show ?thesis by simp
qed

lemma upt_32: "[0..<32] = [0, 1, 2, 3, 4, 5, 6, 7, 8, 9, 10, 11, 12, 13, 14, 15, 16, 17,
    18, 19, 20, 21, 22, 23, 24, 25, 26, 27, 28, 29, 30, 31]"
  by code_simp

lemma wr_numeral: "wr (x # xs) (numeral j) v = map_option ((#) x) (wr xs (pred_numeral j) v)"
  by (simp add: wr_def numeral_eq_Suc)

lemma all_less_list_all: "(\<forall>h < m. P h) \<longleftrightarrow> list_all P [0..<m]"
  by (auto simp: list_all_iff)

subsection \<open>Hub selection\<close>

lemma unat_hub_hash_less: "unat (hub_hash idx) < 2147483648"
proof -
  have "hub_hash idx < 2147483648"
    unfolding hub_hash_def Let_def by (rule word_mod_less_divisor) simp
  then show ?thesis by (simp add: word_less_nat_alt)
qed

text \<open>
  C9. Hub selection is a function of the slot and of \<open>n\<close> alone: for a cloud of
  \<open>n > 0\<close> points the kernel returns, in slot \<open>s\<close> of the \<open>H\<close> slots, the 32-bit
  linear-congruential value of \<open>1234 + s\<close>, reduced modulo \<open>2^31\<close> and then modulo \<open>n\<close>;
  every selected identifier is a point index below \<open>n\<close>.
\<close>

theorem Randomly_Select_Hubs_deterministic:
  assumes "0 < n"
  shows "\<exists>hubs. Randomly_Select_Hubs H n = Some hubs \<and> length hubs = H \<and>
           (\<forall>s < H. hubs ! s = unat (hub_hash s) mod n \<and> hubs ! s < n) \<and>
           (\<forall>s. unat (hub_hash s) =
                 ((1234 + s) * 1103515245 + 12345) mod 2 ^ 32 mod 2 ^ 31)"
proof -
  have sel: "those_opt (map (select_hub n) [0..<H]) =
      Some (map (\<lambda>s. unat (hub_hash s) mod n) [0..<H])"
    using assms by (intro those_opt_map_Some) (simp add: select_hub_def)
  have hash: "unat (hub_hash s) = ((1234 + s) * 1103515245 + 12345) mod 2 ^ 32 mod 2 ^ 31" for s
  proof -
    have "unat (hub_hash s) =
        unat ((1234 + word_of_nat s :: 32 word) * 1103515245 + 12345) mod 2147483648"
      by (simp add: hub_hash_def Let_def unat_mod)
    also have "(1234 + word_of_nat s :: 32 word) * 1103515245 + 12345 =
        word_of_nat ((1234 + s) * 1103515245 + 12345)"
      by simp
    also have "unat (word_of_nat ((1234 + s) * 1103515245 + 12345) :: 32 word) =
        ((1234 + s) * 1103515245 + 12345) mod 2 ^ 32"
      by (simp only: unat_of_nat, simp)
    finally show ?thesis by simp
  qed
  show ?thesis
    using assms sel hash by (simp add: Randomly_Select_Hubs_def)
qed

theorem Randomly_Select_Hubs_witness:
  "(0::nat) < 7 \<and> Randomly_Select_Hubs 4 7 = Some [3, 3, 1, 1]"
proof -
  obtain hubs where h: "Randomly_Select_Hubs 4 7 = Some hubs" "length hubs = 4"
    "\<forall>s < 4. hubs ! s = unat (hub_hash s) mod 7 \<and> hubs ! s < 7"
    using Randomly_Select_Hubs_deterministic [of 7 4] by auto
  have "hubs ! 0 = 3" "hubs ! 1 = 3" "hubs ! 2 = 1" "hubs ! 3 = 1"
    using h(3) [rule_format, of 0] h(3) [rule_format, of 1]
      h(3) [rule_format, of 2] h(3) [rule_format, of 3]
    by (simp_all add: hub_hash_def)
  then have "hubs = [3, 3, 1, 1]"
    using h(2) by (auto simp: list_eq_iff_nth_eq less_Suc_eq numeral_eq_Suc)
  then show ?thesis using h(1) by simp
qed

subsection \<open>Choice of the collector\<close>

text \<open>
  C4, as the spec states it, fails: \<open>k = 100\<close> launches the collector of bound 256
  although 128 is a supported bound of at least 100, and \<open>k = 200\<close>, which is below 512,
  reaches the failing assertion.
\<close>

theorem C_and_Q_switch_not_smallest_tier:
  "launched_tier (C_and_Q_switch 100) = Some 256 \<and> spec_tier 100 = Some 128 \<and>
   C_and_Q_switch 200 = Assert_Failed \<and> spec_tier 200 = Some 256"
  by (simp add: C_and_Q_switch_def CEIL_DIV_def warp_size_def launched_tier_def spec_tier_def)

text \<open>
  C4, amended. The case is chosen by the number of warp-wide rounds
  \<open>\<lceil>k / 32\<rceil>\<close>: rounds 1 to 5 launch the collectors of bound 32, 64, 128, 256 and 512,
  so that the launched bound is at least \<open>k\<close> and is the smallest supported one exactly
  for \<open>1 \<le> k \<le> 96\<close>; \<open>k = 0\<close> and every \<open>k > 160\<close> reach the failing assertion.
\<close>

theorem C_and_Q_switch_by_rounds:
  "C_and_Q_switch k =
     (if k = 0 then Assert_Failed
      else if k \<le> 32 then Launch 32 2 128
      else if k \<le> 64 then Launch 64 3 128
      else if k \<le> 96 then Launch 128 3 128
      else if k \<le> 128 then Launch 256 4 128
      else if k \<le> 160 then Launch 512 8 128
      else Assert_Failed)
   \<and> (case C_and_Q_switch k of Launch w _ _ \<Rightarrow> k \<le> w | Assert_Failed \<Rightarrow> k = 0 \<or> 160 < k)
   \<and> (launched_tier (C_and_Q_switch k) = spec_tier k \<longleftrightarrow> (1 \<le> k \<and> k \<le> 96) \<or> 512 < k)"
proof -
  have c: "CEIL_DIV k warp_size = (k + 31) div 32"
    by (simp add: CEIL_DIV_def warp_size_def)
  consider "k = 0" | "1 \<le> k" "k \<le> 32" | "33 \<le> k" "k \<le> 64" | "65 \<le> k" "k \<le> 96"
    | "97 \<le> k" "k \<le> 128" | "129 \<le> k" "k \<le> 160" | "161 \<le> k"
    by linarith
  then show ?thesis
  proof cases
    case 1
    then show ?thesis
      by (simp add: C_and_Q_switch_def CEIL_DIV_def warp_size_def launched_tier_def
          spec_tier_def)
  next
    case 2
    then have "(k + 31) div 32 = 1" by auto
    with 2 show ?thesis
      by (simp add: C_and_Q_switch_def c launched_tier_def spec_tier_def)
  next
    case 3
    then have "(k + 31) div 32 = 2" by auto
    with 3 show ?thesis
      by (simp add: C_and_Q_switch_def c launched_tier_def spec_tier_def)
  next
    case 4
    then have "(k + 31) div 32 = 3" by auto
    with 4 show ?thesis
      by (simp add: C_and_Q_switch_def c launched_tier_def spec_tier_def)
  next
    case 5
    then have "(k + 31) div 32 = 4" by auto
    with 5 show ?thesis
      by (simp add: C_and_Q_switch_def c launched_tier_def spec_tier_def)
  next
    case 6
    then have "(k + 31) div 32 = 5" by auto
    with 6 show ?thesis
      by (simp add: C_and_Q_switch_def c launched_tier_def spec_tier_def)
  next
    case 7
    then have "6 \<le> (k + 31) div 32" by auto
    with 7 show ?thesis
      by (auto simp: C_and_Q_switch_def c launched_tier_def spec_tier_def)
  qed
qed

subsection \<open>The query stage\<close>

lemma ex_fields:
  "ix_points ex_ix = [0, 0, 0, 1, 0, 0]"
  "ix_dH ex_ix = 0 # 1 # replicate 30 0"
  "ix_arr_idx ex_ix = [0, 1]"
  "ix_arr_x ex_ix = [0, 1]" "ix_arr_y ex_ix = [0, 0]" "ix_arr_z ex_ix = [0, 0]"
  "ix_dH_psum ex_ix = 0 # 1 # replicate 31 2"
  "ix_assignments ex_ix = [0, 1]"
  by (simp_all only: ex_ix_def knn_index.select_convs)

lemma ex_iD: "rd (ix_iD ex_ix) i =
    (if i < 1024 then Some (if i = 32 then 1 else if i = 33 then 0 else i mod 32) else None)"
  by (simp only: ex_ix_def knn_index.select_convs rd_map_upt)

lemma ex_dD: "rd (ix_dD ex_ix) i =
    (if i < 1024 then Some (if i mod 32 = 0 then 0 else if i mod 32 = 1 then 1 else FLT_MAX) else None)"
  by (simp only: ex_ix_def knn_index.select_convs rd_map_upt)

lemma lanes: "[0..<warp_size] = [0, 1, 2, 3, 4, 5, 6, 7, 8, 9, 10, 11, 12, 13, 14, 15, 16, 17,
    18, 19, 20, 21, 22, 23, 24, 25, 26, 27, 28, 29, 30, 31]"
  unfolding warp_size_def by code_simp

lemma b0: "those_opt (map (next_candidate 2 ex_ix (0, 0, 0) 0 1) [0..<warp_size]) =
    Some ((0, 0) # replicate 31 (FLT_MAX, 2))"
  by (simp add: lanes rd_def ex_fields next_candidate_def l2dist_def numeral_eq_Suc)

lemma b1: "those_opt (map (next_candidate 2 ex_ix (1, 0, 0) 1 2) [0..<warp_size]) =
    Some ((0, 1) # replicate 31 (FLT_MAX, 2))"
  by (simp add: lanes rd_def ex_fields next_candidate_def l2dist_def numeral_eq_Suc)

lemma add0: "heap_add topk_collector \<lparr>tk_K = 1, tk_items = [(FLT_MAX, - 1)]\<rparr>
     ((0, i) # replicate 31 (FLT_MAX, 2)) = \<lparr>tk_K = 1, tk_items = [(0, i)]\<rparr>"
  by (simp add: topk_collector_def FLT_MAX_def numeral_eq_Suc)

lemma topk_simps:
  "heap_init topk_collector initK initV K = \<lparr>tk_K = K, tk_items = replicate K (initK, initV)\<rparr>"
  "heap_add topk_collector h batch =
     h\<lparr>tk_items := take (tk_K h) (foldr (insort_key fst) batch (tk_items h))\<rparr>"
  "warpKTop topk_collector h = (if tk_items h = [] then FLT_MAX else fst (last (tk_items h)))"
  "heap_writeOut topk_collector h i = tk_items h ! i"
  by (simp_all add: topk_collector_def)

lemma step0: "Query_step topk_collector 32 2 ex_ix (0, 0, 0) 0 ex_st0 = Some ex_st1"
  apply (simp only: Query_step_def ex_st0_def scan.select_convs b0 bind.bind_lunit Let_def
      scan.update_convs add0)
  apply (simp add: ex_iD ex_dD ex_fields rd_simps warp_size_def ex_st1_def)
  done

lemma cont0: "continue_scan topk_collector 32 0 ex_st0"
  by (simp add: continue_scan_def ex_st0_def topk_collector_def FLT_MAX_def)

lemma cont1: "\<not> continue_scan topk_collector 32 0 ex_st1"
  by (simp add: continue_scan_def ex_st1_def topk_collector_def)

lemma loop0: "Query_loop topk_collector 32 2 ex_ix (0, 0, 0) 0 0 ex_st0 = Some ex_st1"
  apply (subst Query_loop.simps)
  apply (simp only: cont0 step0 if_True option.case)
  apply (subst Query_loop.simps)
  apply (simp only: cont1 if_False)
  done

























lemma Query_loop_exit:
  "Query_loop c H Points_num ix q hub my st = Some st' \<Longrightarrow> \<not> continue_scan c H my st'"
proof (induction c H Points_num ix q hub my st rule: Query_loop.induct)
  case (1 c H Points_num ix q hub my st)
  show ?case
  proof (cases "continue_scan c H my st")
    case True
    with "1.prems" obtain st1 where "Query_step c H Points_num ix q hub st = Some st1"
      "Query_loop c H Points_num ix q hub my st1 = Some st'"
      by (subst (asm) Query_loop.simps) (auto split: option.splits)
    with "1.IH" True show ?thesis by blast
  next
    case False
    with "1.prems" show ?thesis by (subst (asm) Query_loop.simps) simp
  qed
qed

text \<open>
  C3, as the spec states it, fails: the comparison is the other way round. On entry to
  the loop of point 0 of the small index the square root of the collector's worst
  distance exceeds the bound (the lower bound of the hub minus the distance to the own
  hub), and the loop scans the bucket instead of stopping; after that pass the square
  root no longer exceeds the bound and the loop stops with 1 of the 32 hubs processed.
\<close>

theorem Query_loop_scans_while_worst_exceeds_bound:
  "sqrt (warpKTop topk_collector (heap ex_st0)) > dist_to_this_hub ex_st0 - 0 \<and>
   Query_loop topk_collector 32 2 ex_ix (0, 0, 0) 0 0 ex_st0 = Some ex_st1 \<and>
   heap ex_st1 \<noteq> heap ex_st0 \<and>
   \<not> sqrt (warpKTop topk_collector (heap ex_st1)) > dist_to_this_hub ex_st1 - 0 \<and>
   Query_loop topk_collector 32 2 ex_ix (0, 0, 0) 0 0 ex_st1 = Some ex_st1 \<and>
   hubs_processed ex_st1 = 1"
proof -
  have "Query_loop topk_collector 32 2 ex_ix (0, 0, 0) 0 0 ex_st1 = Some ex_st1"
    by (subst Query_loop.simps) (simp only: cont1 if_False)
  moreover have "heap ex_st1 \<noteq> heap ex_st0" "hubs_processed ex_st1 = 1"
    by (simp_all add: ex_st0_def ex_st1_def FLT_MAX_def)
  ultimately show ?thesis
    using cont0 cont1 loop0 by (simp add: continue_scan_def ex_st0_def ex_st1_def)
qed

text \<open>
  C3, amended. Before every warp-wide batch the loop tests its condition: it scans the
  next batch while fewer than \<open>H\<close> hubs are processed and the square root of the
  collector's worst retained distance exceeds the lower-bound distance of the current
  hub minus the query's distance to its own hub; it stops, scanning nothing further, as
  soon as that square root is at most the bound or all \<open>H\<close> hubs are processed. So
  whenever the loop ends, one of the two holds.
\<close>

theorem Query_loop_stops_at_bound:
  "(hubs_processed st < H \<and> sqrt (warpKTop c (heap st)) > dist_to_this_hub st - my \<longrightarrow>
      Query_loop c H Points_num ix q hub my st =
        Query_step c H Points_num ix q hub st \<bind> Query_loop c H Points_num ix q hub my) \<and>
   (H \<le> hubs_processed st \<or> sqrt (warpKTop c (heap st)) \<le> dist_to_this_hub st - my \<longrightarrow>
      Query_loop c H Points_num ix q hub my st = Some st) \<and>
   (Query_loop c H Points_num ix q hub my st = Some st' \<longrightarrow>
      H \<le> hubs_processed st' \<or> sqrt (warpKTop c (heap st')) \<le> dist_to_this_hub st' - my)"
proof (intro conjI impI)
  assume "hubs_processed st < H \<and> sqrt (warpKTop c (heap st)) > dist_to_this_hub st - my"
  then have "continue_scan c H my st" by (simp add: continue_scan_def)
  then show "Query_loop c H Points_num ix q hub my st =
        Query_step c H Points_num ix q hub st \<bind> Query_loop c H Points_num ix q hub my"
    by (subst Query_loop.simps) (simp split: option.splits)
next
  assume "H \<le> hubs_processed st \<or> sqrt (warpKTop c (heap st)) \<le> dist_to_this_hub st - my"
  then have "\<not> continue_scan c H my st" by (auto simp: continue_scan_def)
  then show "Query_loop c H Points_num ix q hub my st = Some st"
    by (subst Query_loop.simps) simp
next
  assume "Query_loop c H Points_num ix q hub my st = Some st'"
  from Query_loop_exit [OF this]
  show "H \<le> hubs_processed st' \<or> sqrt (warpKTop c (heap st')) \<le> dist_to_this_hub st' - my"
    by (auto simp: continue_scan_def)
qed

theorem Query_loop_stops_at_bound_witness:
  "hubs_processed ex_st0 < 32 \<and>
   sqrt (warpKTop topk_collector (heap ex_st0)) > dist_to_this_hub ex_st0 - 0 \<and>
   Query_loop topk_collector 32 2 ex_ix (0, 0, 0) 0 0 ex_st0 =
     Query_step topk_collector 32 2 ex_ix (0, 0, 0) 0 ex_st0 \<bind>
       Query_loop topk_collector 32 2 ex_ix (0, 0, 0) 0 0 \<and>
   Query_loop topk_collector 32 2 ex_ix (0, 0, 0) 0 0 ex_st0 = Some ex_st1 \<and>
   sqrt (warpKTop topk_collector (heap ex_st1)) \<le> dist_to_this_hub ex_st1 - 0 \<and>
   Query_loop topk_collector 32 2 ex_ix (0, 0, 0) 0 0 ex_st1 = Some ex_st1"
proof -
  have c0: "hubs_processed ex_st0 < 32 \<and>
      sqrt (warpKTop topk_collector (heap ex_st0)) > dist_to_this_hub ex_st0 - 0"
    using cont0 by (simp add: continue_scan_def)
  have c1: "sqrt (warpKTop topk_collector (heap ex_st1)) \<le> dist_to_this_hub ex_st1 - 0"
    by (simp add: ex_st1_def topk_simps)
  note t0 = Query_loop_stops_at_bound [where st = ex_st0 and H = 32 and c = topk_collector
      and my = 0 and Points_num = 2 and ix = ex_ix and q = "(0, 0, 0)" and hub = 0
      and st' = ex_st1]
  note t1 = Query_loop_stops_at_bound [where st = ex_st1 and H = 32 and c = topk_collector
      and my = 0 and Points_num = 2 and ix = ex_ix and q = "(0, 0, 0)" and hub = 0
      and st' = ex_st1]
  from t0 c0 have "Query_loop topk_collector 32 2 ex_ix (0, 0, 0) 0 0 ex_st0 =
     Query_step topk_collector 32 2 ex_ix (0, 0, 0) 0 ex_st0 \<bind>
       Query_loop topk_collector 32 2 ex_ix (0, 0, 0) 0 0"
    by blast
  moreover from t1 c1 have "Query_loop topk_collector 32 2 ex_ix (0, 0, 0) 0 0 ex_st1 = Some ex_st1"
    by blast
  ultimately show ?thesis using c0 c1 loop0 by simp
qed

subsection \<open>The hub distance matrix\<close>

lemma cell_unique:
  fixes b_size :: nat
  assumes "h * b_size + t = h' * b_size + t'" "t < b_size" "t' < b_size"
  shows "h = h' \<and> t = t'"
proof -
  have "(h * b_size + t) div b_size = h" "(h' * b_size + t') div b_size = h'"
    "(h * b_size + t) mod b_size = t" "(h' * b_size + t') mod b_size = t'"
    using assms(2,3) by simp_all
  with assms(1) show ?thesis by metis
qed

lemma nearest_step_effect:
  assumes "nearest_step b_size points dH q t (ds, mn, a) h = Some (ds', mn', a')"
  shows "\<exists>d. hub_distance points dH q h = Some d \<and> h * b_size + t < length ds \<and>
           ds' = ds[h * b_size + t := d]"
  using assms
  by (auto simp: nearest_step_def split: Option.bind_splits if_splits elim!: wr_SomeE)

lemma nearest_loop:
  assumes "run_warps (nearest_step b_size points dH q t) [0..<m] (ds, mn, a) = Some (ds', mn', a')"
    and "t < b_size"
  shows "length ds' = length ds \<and>
         (\<forall>h < m. h * b_size + t < length ds \<and>
            hub_distance points dH q h = Some (ds' ! (h * b_size + t))) \<and>
         (\<forall>c < length ds. (\<forall>h < m. c \<noteq> h * b_size + t) \<longrightarrow> ds' ! c = ds ! c)"
  using assms(1)
proof (induction m arbitrary: ds' mn' a')
  case 0
  then show ?case by simp
next
  case (Suc m)
  from Suc.prems obtain s1 where s1: "run_warps (nearest_step b_size points dH q t) [0..<m] (ds, mn, a) = Some s1"
    and st: "nearest_step b_size points dH q t s1 m = Some (ds', mn', a')"
    by (rule run_warps_upt_SucE)
  obtain ds1 mn1 a1 where [simp]: "s1 = (ds1, mn1, a1)" by (cases s1)
  from Suc.IH [of ds1 mn1 a1] s1 have ih: "length ds1 = length ds"
    "\<forall>h < m. h * b_size + t < length ds \<and>
       hub_distance points dH q h = Some (ds1 ! (h * b_size + t))"
    "\<forall>c < length ds. (\<forall>h < m. c \<noteq> h * b_size + t) \<longrightarrow> ds1 ! c = ds ! c"
    by simp_all
  from nearest_step_effect [OF st [simplified]] obtain d where d: "hub_distance points dH q m = Some d"
    "m * b_size + t < length ds1" "ds' = ds1[m * b_size + t := d]"
    by blast
  have neq: "h * b_size + t \<noteq> m * b_size + t" if "h < m" for h
    using cell_unique [of h b_size t m t] assms(2) that by auto
  show ?case
  proof (intro conjI allI impI)
    show "length ds' = length ds" using d ih by simp
  next
    fix h assume "h < Suc m"
    then show "h * b_size + t < length ds"
      using d ih by (cases "h = m") (auto simp: less_Suc_eq)
  next
    fix h assume "h < Suc m"
    then show "hub_distance points dH q h = Some (ds' ! (h * b_size + t))"
      using d ih neq by (cases "h = m") (auto simp: less_Suc_eq)
  next
    fix c assume c: "c < length ds" "\<forall>h < Suc m. c \<noteq> h * b_size + t"
    then have "c \<noteq> m * b_size + t" "\<forall>h < m. c \<noteq> h * b_size + t" by auto
    with c(1) ih(3) d(3) show "ds' ! c = ds ! c" by simp
  qed
qed

lemma Calculate_Distances_thread_idle:
  "\<not> (t + b_id * b_size < n \<and> t < b_size) \<Longrightarrow>
     Calculate_Distances_thread H b_id b_size n dH points st t = Some st"
  by (auto simp: Calculate_Distances_thread_def Let_def)

lemma Calculate_Distances_thread_effect:
  assumes "Calculate_Distances_thread H b_id b_size n dH points st t = Some st'"
    and act: "t + b_id * b_size < n" "t < b_size"
  shows "bs_D st' = bs_D st \<and> length (bs_distances st') = length (bs_distances st) \<and>
         length (bs_assignments st') = length (bs_assignments st) \<and>
         (\<forall>h < H. h * b_size + t < length (bs_distances st) \<and>
            pdist points dH (t + b_id * b_size) h = Some (bs_distances st' ! (h * b_size + t))) \<and>
         (\<forall>c < length (bs_distances st). (\<forall>h < H. c \<noteq> h * b_size + t) \<longrightarrow>
             bs_distances st' ! c = bs_distances st ! c) \<and>
         (\<forall>p. p \<noteq> t + b_id * b_size \<longrightarrow> bs_assignments st' ! p = bs_assignments st ! p)"
proof -
  from assms obtain q ds mn a asg c cnt where
    q: "point_at points (t + b_id * b_size) = Some q"
    and loop: "run_warps (nearest_step b_size points dH q t) [0..<H] (bs_distances st, FLT_MAX, H + 1)
        = Some (ds, mn, a)"
    and asg: "wr (bs_assignments st) (t + b_id * b_size) a = Some asg"
    and st': "st' = st\<lparr>bs_distances := ds, bs_assignments := asg, bs_hub_counts := cnt\<rparr>"
    by (auto simp: Calculate_Distances_thread_def Let_def split: Option.bind_splits prod.splits)
  from nearest_loop [OF loop act(2)] q asg st' show ?thesis
    by (auto simp: pdist_def elim!: wr_SomeE)
qed

lemma Calculate_Distances_threads:
  assumes "run_warps (Calculate_Distances_thread H b_id b_size n dH points) [0..<N] st = Some st'"
  shows "bs_D st' = bs_D st \<and> length (bs_distances st') = length (bs_distances st) \<and>
         length (bs_assignments st') = length (bs_assignments st) \<and>
         (\<forall>t < N. t + b_id * b_size < n \<and> t < b_size \<longrightarrow>
            (\<forall>h < H. h * b_size + t < length (bs_distances st) \<and>
               pdist points dH (t + b_id * b_size) h = Some (bs_distances st' ! (h * b_size + t)))) \<and>
         (\<forall>p. \<not> (b_id * b_size \<le> p \<and> p < b_id * b_size + b_size) \<longrightarrow>
            bs_assignments st' ! p = bs_assignments st ! p)"
  using assms
proof (induction N arbitrary: st')
  case 0
  then show ?case by simp
next
  case (Suc N)
  from Suc.prems obtain s1 where
    s1: "run_warps (Calculate_Distances_thread H b_id b_size n dH points) [0..<N] st = Some s1"
    and th: "Calculate_Distances_thread H b_id b_size n dH points s1 N = Some st'"
    by (rule run_warps_upt_SucE)
  note ih = Suc.IH [OF s1]
  show ?case
  proof (cases "N + b_id * b_size < n \<and> N < b_size")
    case False
    then have "st' = s1" using th Calculate_Distances_thread_idle [of N b_id b_size n] by auto
    with ih False show ?thesis by (auto simp: less_Suc_eq)
  next
    case True
    note eff = Calculate_Distances_thread_effect [OF th] True
    have eff1: "bs_D st' = bs_D s1" "length (bs_distances st') = length (bs_distances s1)"
      "length (bs_assignments st') = length (bs_assignments s1)"
      and eff2: "\<forall>h < H. h * b_size + N < length (bs_distances s1) \<and>
            pdist points dH (N + b_id * b_size) h = Some (bs_distances st' ! (h * b_size + N))"
      and eff3: "\<forall>c < length (bs_distances s1). (\<forall>h < H. c \<noteq> h * b_size + N) \<longrightarrow>
             bs_distances st' ! c = bs_distances s1 ! c"
      and eff4: "\<forall>p. p \<noteq> N + b_id * b_size \<longrightarrow> bs_assignments st' ! p = bs_assignments s1 ! p"
      using Calculate_Distances_thread_effect [OF th] True by auto
    show ?thesis
    proof (intro conjI allI impI)
      show "bs_D st' = bs_D st" using eff1 ih by simp
      show "length (bs_distances st') = length (bs_distances st)" using eff1 ih by simp
      show "length (bs_assignments st') = length (bs_assignments st)" using eff1 ih by simp
    next
      fix t h assume t: "t < Suc N" "t + b_id * b_size < n \<and> t < b_size" and h: "h < H"
      show "h * b_size + t < length (bs_distances st)"
        using t h ih eff2 by (cases "t = N") (auto simp: less_Suc_eq)
      show "pdist points dH (t + b_id * b_size) h = Some (bs_distances st' ! (h * b_size + t))"
      proof (cases "t = N")
        case True
        then show ?thesis using eff2 h by simp
      next
        case False
        then have tN: "t < N" using t by simp
        with ih t h have c: "h * b_size + t < length (bs_distances s1)"
          "pdist points dH (t + b_id * b_size) h = Some (bs_distances s1 ! (h * b_size + t))"
          by auto
        have "h * b_size + t \<noteq> h' * b_size + N" for h'
          using cell_unique [of h b_size t h' N] t True False by auto
        with eff3 c show ?thesis by simp
      qed
    next
      fix p assume "\<not> (b_id * b_size \<le> p \<and> p < b_id * b_size + b_size)"
      moreover from this True have "p \<noteq> N + b_id * b_size" by auto
      ultimately show "bs_assignments st' ! p = bs_assignments st ! p"
        using eff4 ih by simp
    qed
  qed
qed

lemma Calculate_Distances_effect:
  assumes "Calculate_Distances H b_id b_size n dH points st = Some st'"
  shows "bs_D st' = bs_D st \<and> length (bs_distances st') = length (bs_distances st) \<and>
         length (bs_assignments st') = length (bs_assignments st) \<and>
         (\<forall>t < b_size. t + b_id * b_size < n \<longrightarrow>
            (\<forall>h < H. pdist points dH (t + b_id * b_size) h = Some (bs_distances st' ! (h * b_size + t)))) \<and>
         (\<forall>p. \<not> (b_id * b_size \<le> p \<and> p < b_id * b_size + b_size) \<longrightarrow>
            bs_assignments st' ! p = bs_assignments st ! p)"
proof -
  let ?N = "(b_size + 1024 - 1) div 1024 * 1024"
  have N: "b_size \<le> ?N" by simp
  from assms have "run_warps (Calculate_Distances_thread H b_id b_size n dH points) [0..<?N] st = Some st'"
    by (simp add: Calculate_Distances_def split: if_splits)
  from Calculate_Distances_threads [OF this] N show ?thesis
    by (auto simp: less_le_trans)
qed

lemma update_min_le:
  fixes s :: "real list"
  shows "c < length s \<Longrightarrow> s[j := min (s ! j) d] ! c \<le> s ! c"
  by (cases "j = c") simp_all

lemma Construct_D_point_effect:
  assumes "Construct_D_point H b_id b_size n ds asg hub_id s p = Some s'"
  shows "length s' = length s \<and> (\<forall>c < length s. s' ! c \<le> s ! c) \<and>
         (b_id * b_size + p < n \<longrightarrow> asg ! (b_id * b_size + p) < H \<and>
            (asg ! (b_id * b_size + p) < length s \<longrightarrow>
               s' ! (asg ! (b_id * b_size + p)) \<le> ds ! (hub_id * b_size + p)))"
  using assms
  by (auto simp: Construct_D_point_def Let_def update_min_le
      split: if_splits Option.bind_splits elim!: rd_SomeE)

lemma Construct_D_points:
  assumes "run_warps (Construct_D_point H b_id b_size n ds asg hub_id) [0..<m] s0 = Some s"
  shows "length s = length s0 \<and> (\<forall>c < length s0. s ! c \<le> s0 ! c) \<and>
         (\<forall>p < m. b_id * b_size + p < n \<longrightarrow> asg ! (b_id * b_size + p) < H \<and>
            (asg ! (b_id * b_size + p) < length s0 \<longrightarrow>
               s ! (asg ! (b_id * b_size + p)) \<le> ds ! (hub_id * b_size + p)))"
  using assms
proof (induction m arbitrary: s)
  case 0
  then show ?case by simp
next
  case (Suc m)
  from Suc.prems obtain s1 where
    s1: "run_warps (Construct_D_point H b_id b_size n ds asg hub_id) [0..<m] s0 = Some s1"
    and pt: "Construct_D_point H b_id b_size n ds asg hub_id s1 m = Some s"
    by (rule run_warps_upt_SucE)
  note ih = Suc.IH [OF s1] and eff = Construct_D_point_effect [OF pt]
  show ?case
  proof (intro conjI allI impI)
    show "length s = length s0" using ih eff by simp
  next
    fix c assume "c < length s0"
    then show "s ! c \<le> s0 ! c" using ih eff by (metis order_trans)
  next
    fix p assume p: "p < Suc m" "b_id * b_size + p < n"
    then show "asg ! (b_id * b_size + p) < H" using ih eff by (cases "p = m") (auto simp: less_Suc_eq)
  next
    fix p assume p: "p < Suc m" "b_id * b_size + p < n" "asg ! (b_id * b_size + p) < length s0"
    show "s ! (asg ! (b_id * b_size + p)) \<le> ds ! (hub_id * b_size + p)"
    proof (cases "p = m")
      case True
      then show ?thesis using p ih eff by auto
    next
      case False
      then have "p < m" using p by simp
      with p ih have "s1 ! (asg ! (b_id * b_size + p)) \<le> ds ! (hub_id * b_size + p)" by auto
      moreover have "s ! (asg ! (b_id * b_size + p)) \<le> s1 ! (asg ! (b_id * b_size + p))"
        using eff ih p by auto
      ultimately show ?thesis by simp
    qed
  qed
qed

lemma Construct_D_cell_effect:
  assumes "Construct_D_cell H hub_id s D c = Some D'"
  shows "H * hub_id + c < length D \<and> D' = D[H * hub_id + c := min (s ! c) (D ! (H * hub_id + c))]"
  using assms
  by (auto simp: Construct_D_cell_def split: Option.bind_splits elim!: rd_SomeE wr_SomeE)

lemma Construct_D_cells:
  assumes "run_warps (Construct_D_cell H hub_id s) [0..<m] D = Some D'"
  shows "length D' = length D \<and> (\<forall>x < length D. D' ! x \<le> D ! x) \<and>
         (\<forall>c < m. H * hub_id + c < length D \<and> D' ! (H * hub_id + c) \<le> s ! c)"
  using assms
proof (induction m arbitrary: D')
  case 0
  then show ?case by simp
next
  case (Suc m)
  from Suc.prems obtain D1 where
    D1: "run_warps (Construct_D_cell H hub_id s) [0..<m] D = Some D1"
    and cl: "Construct_D_cell H hub_id s D1 m = Some D'"
    by (rule run_warps_upt_SucE)
  note ih = Suc.IH [OF D1] and eff = Construct_D_cell_effect [OF cl]
  have mono: "D' ! x \<le> D1 ! x" if "x < length D1" for x
    using eff that by (auto simp: nth_list_update)
  show ?case
  proof (intro conjI allI impI)
    show "length D' = length D" using ih eff by simp
  next
    fix x assume "x < length D"
    then show "D' ! x \<le> D ! x" using ih mono [of x] by (metis order_trans)
  next
    fix c assume c: "c < Suc m"
    show "H * hub_id + c < length D" using c ih eff by (cases "c = m") (auto simp: less_Suc_eq)
    show "D' ! (H * hub_id + c) \<le> s ! c"
    proof (cases "c = m")
      case True
      then show ?thesis using eff by simp
    next
      case False
      then have "c < m" using c by simp
      with ih have "H * hub_id + c < length D1" "D1 ! (H * hub_id + c) \<le> s ! c" by auto
      with mono [of "H * hub_id + c"] show ?thesis by simp
    qed
  qed
qed

lemma Construct_D_block_effect:
  assumes "Construct_D_block H b_id b_size n ds asg D hub_id = Some D'"
  shows "length D' = length D \<and> (\<forall>x < length D. D' ! x \<le> D ! x) \<and>
         (\<forall>p < b_size. b_id * b_size + p < n \<longrightarrow> asg ! (b_id * b_size + p) < H \<and>
            H * hub_id + asg ! (b_id * b_size + p) < length D \<and>
            D' ! (H * hub_id + asg ! (b_id * b_size + p)) \<le> ds ! (hub_id * b_size + p))"
proof -
  from assms obtain s where
    s: "run_warps (Construct_D_point H b_id b_size n ds asg hub_id) [0..<b_size]
          (replicate H s_dists_init) = Some s"
    and c: "run_warps (Construct_D_cell H hub_id s) [0..<H] D = Some D'"
    by (auto simp: Construct_D_block_def split: if_splits Option.bind_splits)
  note ps = Construct_D_points [OF s] and cs = Construct_D_cells [OF c]
  show ?thesis
  proof (intro conjI allI impI)
    show "length D' = length D" using cs by simp
  next
    fix x assume "x < length D"
    then show "D' ! x \<le> D ! x" using cs by simp
  next
    fix p assume p: "p < b_size" "b_id * b_size + p < n"
    let ?j = "asg ! (b_id * b_size + p)"
    from ps p have j: "?j < H" "s ! ?j \<le> ds ! (hub_id * b_size + p)" by auto
    show "?j < H" by fact
    show "H * hub_id + ?j < length D" using cs j by simp
    have "D' ! (H * hub_id + ?j) \<le> s ! ?j" using cs j by simp
    with j show "D' ! (H * hub_id + ?j) \<le> ds ! (hub_id * b_size + p)" by simp
  qed
qed

lemma Construct_D_blocks:
  assumes "run_warps (Construct_D_block H b_id b_size n ds asg) [0..<m] D = Some D'"
  shows "length D' = length D \<and> (\<forall>x < length D. D' ! x \<le> D ! x) \<and>
         (\<forall>i < m. \<forall>p < b_size. b_id * b_size + p < n \<longrightarrow> asg ! (b_id * b_size + p) < H \<and>
            H * i + asg ! (b_id * b_size + p) < length D \<and>
            D' ! (H * i + asg ! (b_id * b_size + p)) \<le> ds ! (i * b_size + p))"
  using assms
proof (induction m arbitrary: D')
  case 0
  then show ?case by simp
next
  case (Suc m)
  from Suc.prems obtain D1 where
    D1: "run_warps (Construct_D_block H b_id b_size n ds asg) [0..<m] D = Some D1"
    and bl: "Construct_D_block H b_id b_size n ds asg D1 m = Some D'"
    by (rule run_warps_upt_SucE)
  note ih = Suc.IH [OF D1] and eff = Construct_D_block_effect [OF bl]
  show ?case
  proof (intro conjI allI impI)
    show "length D' = length D" using ih eff by simp
  next
    fix x assume "x < length D"
    then show "D' ! x \<le> D ! x" using ih eff by (metis order_trans)
  next
    fix i p assume ip: "i < Suc m" "p < b_size" "b_id * b_size + p < n"
    let ?j = "asg ! (b_id * b_size + p)"
    show "?j < H" using eff ip by simp
    show "H * i + ?j < length D" using ih eff ip by (cases "i = m") (auto simp: less_Suc_eq)
    show "D' ! (H * i + ?j) \<le> ds ! (i * b_size + p)"
    proof (cases "i = m")
      case True
      then show ?thesis using eff ip by simp
    next
      case False
      then have "i < m" using ip by simp
      with ih ip have "H * i + ?j < length D1" "D1 ! (H * i + ?j) \<le> ds ! (i * b_size + p)"
        by auto
      moreover from this eff have "D' ! (H * i + ?j) \<le> D1 ! (H * i + ?j)" by simp
      ultimately show ?thesis by simp
    qed
  qed
qed

lemma Construct_D_effect:
  assumes "Construct_D H b_id b_size n st = Some st'"
  shows "bs_assignments st' = bs_assignments st \<and> length (bs_D st') = length (bs_D st) \<and>
         (\<forall>x < length (bs_D st). bs_D st' ! x \<le> bs_D st ! x) \<and>
         (\<forall>i < H. \<forall>p < b_size. b_id * b_size + p < n \<longrightarrow>
            H * i + bs_assignments st ! (b_id * b_size + p) < length (bs_D st) \<and>
            bs_D st' ! (H * i + bs_assignments st ! (b_id * b_size + p))
              \<le> bs_distances st ! (i * b_size + p))"
proof -
  from assms obtain D' where
    D': "run_warps (Construct_D_block H b_id b_size n (bs_distances st) (bs_assignments st))
           [0..<H] (bs_D st) = Some D'"
    and st': "st' = st\<lparr>bs_D := D'\<rparr>"
    by (auto simp: Construct_D_def split: Option.bind_splits)
  from Construct_D_blocks [OF D'] st' show ?thesis by simp
qed

lemma C_and_Q_batch_sound:
  assumes run: "C_and_Q_batch H b_size n dH data st b = Some st'"
    and inv: "D_sound H dH data (min n (b * b_size)) st"
  shows "D_sound H dH data (min n (Suc b * b_size)) st'"
proof -
  from run obtain st1 where cd: "Calculate_Distances H b b_size n dH data st = Some st1"
    and cn: "Construct_D H b b_size n st1 = Some st'"
    by (auto simp: C_and_Q_batch_def split: Option.bind_splits)
  note e1 = Calculate_Distances_effect [OF cd] and e2 = Construct_D_effect [OF cn]
  show ?thesis
    unfolding D_sound_def
  proof (intro allI impI)
    fix i p assume i: "i < H" and p: "p < min n (Suc b * b_size)"
    show "\<exists>d. pdist data dH p i = Some d \<and>
        H * i + bs_assignments st' ! p < length (bs_D st') \<and>
        bs_D st' ! (H * i + bs_assignments st' ! p) \<le> d"
    proof (cases "p < b * b_size")
      case True
      with p inv i obtain d where d: "pdist data dH p i = Some d"
        "H * i + bs_assignments st ! p < length (bs_D st)"
        "bs_D st ! (H * i + bs_assignments st ! p) \<le> d"
        by (auto simp: D_sound_def)
      have a: "bs_assignments st' ! p = bs_assignments st ! p"
        using e1 e2 True by simp
      have "bs_D st' ! (H * i + bs_assignments st ! p) \<le> bs_D st ! (H * i + bs_assignments st ! p)"
        using e1 e2 d(2) by simp
      with d a e1 e2 show ?thesis by auto
    next
      case False
      define t where "t = p - b * b_size"
      have t: "t < b_size" "p < n" and bt: "b * b_size + t = p" and tb: "t + b * b_size = p"
        using False p by (auto simp: t_def)
      from e1 have "\<forall>t < b_size. t + b * b_size < n \<longrightarrow>
            (\<forall>h < H. pdist data dH (t + b * b_size) h = Some (bs_distances st1 ! (h * b_size + t)))"
        by blast
      from this [rule_format, OF t(1), unfolded tb, OF t(2) i]
      have d: "pdist data dH p i = Some (bs_distances st1 ! (i * b_size + t))" .
      from e2 have "\<forall>i < H. \<forall>p < b_size. b * b_size + p < n \<longrightarrow>
            H * i + bs_assignments st1 ! (b * b_size + p) < length (bs_D st1) \<and>
            bs_D st' ! (H * i + bs_assignments st1 ! (b * b_size + p))
              \<le> bs_distances st1 ! (i * b_size + p)"
        by blast
      from this [rule_format, OF i t(1), unfolded bt, OF t(2)]
      have "H * i + bs_assignments st1 ! p < length (bs_D st1)"
        "bs_D st' ! (H * i + bs_assignments st1 ! p) \<le> bs_distances st1 ! (i * b_size + t)"
        by simp_all
      with d e2 show ?thesis by simp
    qed
  qed
qed

lemma C_and_Q_batches_sound:
  assumes "run_warps (C_and_Q_batch H b_size n dH data) [0..<m] st = Some st'"
    and "D_sound H dH data 0 st"
  shows "D_sound H dH data (min n (m * b_size)) st'"
  using assms(1)
proof (induction m arbitrary: st')
  case 0
  then show ?case using assms(2) by simp
next
  case (Suc m)
  from Suc.prems obtain s1 where
    s1: "run_warps (C_and_Q_batch H b_size n dH data) [0..<m] st = Some s1"
    and b: "C_and_Q_batch H b_size n dH data s1 m = Some st'"
    by (rule run_warps_upt_SucE)
  from C_and_Q_batch_sound [OF b Suc.IH [OF s1]] show ?case .
qed

lemma Calculate_Distances_active:
  assumes "0 < H"
  shows "Calculate_Distances H b_id b_size n dH points st =
         run_warps (Calculate_Distances_thread H b_id b_size n dH points) [0..<b_size] st"
proof -
  let ?N = "(b_size + 1024 - 1) div 1024 * 1024"
  let ?f = "Calculate_Distances_thread H b_id b_size n dH points"
  have N: "b_size \<le> ?N" by simp
  then have "[0..<?N] = [0..<b_size] @ [b_size..<?N]"
    using upt_add_eq_append [of 0 b_size "?N - b_size"] by simp
  moreover have "run_warps ?f [b_size..<?N] s = Some s" for s
    by (rule run_warps_idle) (simp add: Calculate_Distances_thread_idle)
  ultimately have "run_warps ?f [0..<?N] st = run_warps ?f [0..<b_size] st"
    by (simp add: run_warps_append split: Option.bind_splits)
  with assms show ?thesis by (simp add: Calculate_Distances_def)
qed

lemma ex_batch0:
  "C_and_Q_batch 2 1 2 [0, 1] [0, 0, 0, 1, 0, 0]
     \<lparr>bs_distances = [9, 9], bs_hub_counts = [0, 0, 0], bs_assignments = [0, 0],
      bs_D = [FLT_MAX, FLT_MAX, FLT_MAX, FLT_MAX]\<rparr> 0 =
   Some \<lparr>bs_distances = [0, 1], bs_hub_counts = [1, 0, 0], bs_assignments = [0, 0],
      bs_D = [0, s_dists_init, 1, s_dists_init]\<rparr>"
  by (simp add: C_and_Q_batch_def Calculate_Distances_active Calculate_Distances_thread_def
      upt_2 nearest_step_def hub_distance_def point_at_def rd_simps wr_simps dim_def l2dist_def
      FLT_MAX_def Construct_D_def Construct_D_block_def Construct_D_point_def
      Construct_D_cell_def s_dists_init_def numeral_2_eq_2)

lemma ex_batch1:
  "C_and_Q_batch 2 1 2 [0, 1] [0, 0, 0, 1, 0, 0]
     \<lparr>bs_distances = [0, 1], bs_hub_counts = [1, 0, 0], bs_assignments = [0, 0],
      bs_D = [0, s_dists_init, 1, s_dists_init]\<rparr> 1 = Some ex_build"
  by (simp add: C_and_Q_batch_def Calculate_Distances_active Calculate_Distances_thread_def
      upt_2 nearest_step_def hub_distance_def point_at_def rd_simps wr_simps dim_def l2dist_def
      FLT_MAX_def Construct_D_def Construct_D_block_def Construct_D_point_def
      Construct_D_cell_def s_dists_init_def numeral_2_eq_2 ex_build_def)

lemma ex_batches:
  "C_and_Q_batches 2 1 2 [0, 1] [0, 0, 0, 1, 0, 0] [9, 9] = Some ex_build"
proof -
  have "replicate (2 + 1) (0::nat) = [0, 0, 0]" "replicate 2 (0::nat) = [0, 0]"
    "set_max_float (2 * 2) = [FLT_MAX, FLT_MAX, FLT_MAX, FLT_MAX]"
    by (simp_all add: set_max_float_def numeral_eq_Suc)
  then show ?thesis
    unfolding C_and_Q_batches_def
    by (simp add: upt_2 ex_batch0 [simplified] ex_batch1 [simplified])
qed

text \<open>
  C5. When the batches of the index construction have run, whatever the batch size, the
  entry \<open>D[i][j]\<close> does not exceed the distance, as \<^verbatim>\<open>Calculate_Distances\<close> computes it,
  from hub \<open>i\<close> to any point that the final assignment table gives to hub \<open>j\<close>; hence it
  does not exceed the minimum of these distances.
\<close>

theorem D_never_overestimates:
  assumes "C_and_Q_batches H batch_size n dH data distances = Some st"
  shows "\<forall>i < H. \<forall>j < H. \<forall>p < n. bs_assignments st ! p = j \<longrightarrow>
           (\<exists>d. pdist data dH p i = Some d \<and> bs_D st ! (H * i + j) \<le> d)"
proof -
  let ?m = "(n + batch_size - 1) div batch_size"
  let ?st0 = "\<lparr>bs_distances = distances, bs_hub_counts = replicate (H + 1) 0,
              bs_assignments = replicate n 0, bs_D = set_max_float (H * H)\<rparr>"
  from assms have b: "0 < batch_size"
    and run: "run_warps (C_and_Q_batch H batch_size n dH data) [0..<?m] ?st0 = Some st"
    by (auto simp: C_and_Q_batches_def Let_def split: if_splits)
  have "D_sound H dH data 0 ?st0" by (simp add: D_sound_def)
  from C_and_Q_batches_sound [OF run this]
  have s: "D_sound H dH data (min n (?m * batch_size)) st" .
  have "n \<le> ?m * batch_size"
  proof -
    have "n + batch_size - 1 < (?m + 1) * batch_size"
      using b div_less_iff_less_mult [of batch_size "n + batch_size - 1" "?m + 1"] by simp
    then show ?thesis using b by simp
  qed
  then have "min n (?m * batch_size) = n" by simp
  with s have "D_sound H dH data n st" by (simp only:)
  then show ?thesis unfolding D_sound_def by blast
qed

theorem D_never_overestimates_witness:
  "C_and_Q_batches 2 1 2 [0, 1] [0, 0, 0, 1, 0, 0] [9, 9] = Some ex_build \<and>
   bs_assignments ex_build ! 0 = 0 \<and>
   (\<exists>d. pdist [0, 0, 0, 1, 0, 0] [0, 1] 0 1 = Some d \<and>
      bs_D ex_build ! (2 * 1 + 0) \<le> d)"
  using D_never_overestimates [OF ex_batches, rule_format, of 1 0 0] ex_batches
  by (simp add: ex_build_def)

subsection \<open>Squared and square-rooted distances\<close>


































































subsection \<open>Rebalancing\<close>

lemma reassign_step_effect:
  assumes "reassign_step n k ds ic idx (mn, nh) h = Some (mn', nh')"
  shows "h < length ic \<and> h * n + idx < length ds \<and> ds ! (h * n + idx) < FLT_MAX \<and>
         (if k \<le> ic ! h \<and> ds ! (h * n + idx) < mn then mn' = ds ! (h * n + idx) \<and> nh' = h
          else mn' = mn \<and> nh' = nh)"
  using assms
  by (auto simp: reassign_step_def split: Option.bind_splits if_splits elim!: rd_SomeE)

lemma reassign_loop:
  assumes "run_warps (reassign_step n k ds ic idx) [0..<m] (FLT_MAX, H0) = Some (mn, nh)"
  shows "(\<forall>h < m. h < length ic) \<and>
         ((nh = H0 \<and> mn = FLT_MAX \<and> (\<forall>h < m. ic ! h < k)) \<or>
          (nh < m \<and> k \<le> ic ! nh \<and> mn = ds ! (nh * n + idx) \<and> mn < FLT_MAX \<and>
             (\<forall>h < m. k \<le> ic ! h \<longrightarrow> mn \<le> ds ! (h * n + idx))))"
  using assms
proof (induction m arbitrary: mn nh)
  case 0
  then show ?case by simp
next
  case (Suc m)
  from Suc.prems obtain s1 where
    s1: "run_warps (reassign_step n k ds ic idx) [0..<m] (FLT_MAX, H0) = Some s1"
    and st: "reassign_step n k ds ic idx s1 m = Some (mn, nh)"
    by (rule run_warps_upt_SucE)
  obtain mn1 nh1 where [simp]: "s1 = (mn1, nh1)" by (cases s1)
  from Suc.IH [of mn1 nh1] s1 have ih: "\<forall>h < m. h < length ic"
    "(nh1 = H0 \<and> mn1 = FLT_MAX \<and> (\<forall>h < m. ic ! h < k)) \<or>
          (nh1 < m \<and> k \<le> ic ! nh1 \<and> mn1 = ds ! (nh1 * n + idx) \<and> mn1 < FLT_MAX \<and>
             (\<forall>h < m. k \<le> ic ! h \<longrightarrow> mn1 \<le> ds ! (h * n + idx)))"
    by simp_all
  note eff = reassign_step_effect [OF st [simplified]]
  have len: "\<forall>h < Suc m. h < length ic" using ih(1) eff by (auto simp: less_Suc_eq)
  show ?case
  proof (cases "k \<le> ic ! m \<and> ds ! (m * n + idx) < mn1")
    case True
    with eff have new: "mn = ds ! (m * n + idx)" "nh = m" by simp_all
    have "\<forall>h < Suc m. k \<le> ic ! h \<longrightarrow> mn \<le> ds ! (h * n + idx)"
    proof (intro allI impI)
      fix h assume h: "h < Suc m" "k \<le> ic ! h"
      show "mn \<le> ds ! (h * n + idx)"
      proof (cases "h = m")
        case True
        then show ?thesis using new by simp
      next
        case False
        then have hm: "h < m" using h by simp
        with ih(2) h have "mn1 \<le> ds ! (h * n + idx)" by auto
        with True new show ?thesis by simp
      qed
    qed
    with True new eff len show ?thesis by auto
  next
    case False
    with eff have same: "mn = mn1" "nh = nh1" by auto
    from ih(2) show ?thesis
    proof
      assume a: "nh1 = H0 \<and> mn1 = FLT_MAX \<and> (\<forall>h < m. ic ! h < k)"
      with False eff have "ic ! m < k" by auto
      with a same len show ?thesis by (auto simp: less_Suc_eq)
    next
      assume a: "nh1 < m \<and> k \<le> ic ! nh1 \<and> mn1 = ds ! (nh1 * n + idx) \<and> mn1 < FLT_MAX \<and>
             (\<forall>h < m. k \<le> ic ! h \<longrightarrow> mn1 \<le> ds ! (h * n + idx))"
      have "\<forall>h < Suc m. k \<le> ic ! h \<longrightarrow> mn \<le> ds ! (h * n + idx)"
        using a False same by (auto simp: less_Suc_eq)
      with a same len show ?thesis by auto
    qed
  qed
qed

lemma reassign_point_effect:
  assumes "reassign_point H n k ds ic (cnt, asg) idx = Some (cnt', asg')"
  shows "idx < length asg \<and> asg ! idx < length ic \<and>
         (if ic ! (asg ! idx) < k then
            \<exists>nh. nh < H \<and> nh < length ic \<and> k \<le> ic ! nh \<and> nh < length cnt \<and>
              (\<forall>h < H. k \<le> ic ! h \<longrightarrow> ds ! (nh * n + idx) \<le> ds ! (h * n + idx)) \<and>
              asg' = asg[idx := nh] \<and> cnt' = cnt[nh := cnt ! nh + 1]
          else cnt' = cnt \<and> asg' = asg)"
proof -
  from assms have cur: "idx < length asg" "asg ! idx < length ic"
    by (auto simp: reassign_point_def split: Option.bind_splits elim!: rd_SomeE)
  show ?thesis
  proof (cases "ic ! (asg ! idx) < k")
    case False
    with assms cur show ?thesis
      by (auto simp: reassign_point_def rd_def split: Option.bind_splits if_splits)
  next
    case True
    with assms cur obtain mn nh where
      loop: "run_warps (reassign_step n k ds ic idx) [0..<H] (FLT_MAX, H) = Some (mn, nh)"
      and nh: "nh < H" "mn < FLT_MAX" "nh < length ic" "k \<le> ic ! nh"
      and upd: "asg' = asg[idx := nh]" "nh < length cnt" "cnt' = cnt[nh := cnt ! nh + 1]"
      by (auto simp: reassign_point_def rd_def wr_def
          split: Option.bind_splits if_splits prod.splits)
    from reassign_loop [OF loop] nh
    have "\<forall>h < H. k \<le> ic ! h \<longrightarrow> ds ! (nh * n + idx) \<le> ds ! (h * n + idx)"
      by auto
    with True cur nh upd show ?thesis by auto
  qed
qed

lemma count_list_update:
  "p < length xs \<Longrightarrow> xs ! p \<noteq> h \<Longrightarrow>
     count_list (xs[p := v]) h = count_list xs h + (if v = h then 1 else 0)"
proof (induction xs arbitrary: p)
  case Nil
  then show ?case by simp
next
  case (Cons x xs)
  then show ?case by (cases p) auto
qed

lemma snapshot_counts:
  assumes "those_opt (map (rd cnt) [0..<H]) = Some ic"
  shows "length ic = H \<and> (\<forall>h < H. h < length cnt \<and> ic ! h = cnt ! h)"
proof -
  from those_opt_nth [OF assms] have len: "length ic = H"
    and nth: "\<forall>i < H. rd cnt i = Some (ic ! i)" by simp_all
  from nth have "\<forall>h < H. h < length cnt \<and> ic ! h = cnt ! h"
    by (auto elim!: rd_SomeE)
  with len show ?thesis by simp
qed

lemma reassignPoints_thread_effect:
  assumes "reassignPoints_thread H n k ds ic (cnt, asg) idx = Some (cnt', asg')"
  obtains cnt1 where
    "if idx < n then reassign_point H n k ds ic (cnt, asg) idx = Some (cnt1, asg')
     else cnt1 = cnt \<and> asg' = asg"
    "if idx < H \<and> ic ! idx < k then idx < length cnt1 \<and> cnt' = cnt1[idx := 0] else cnt' = cnt1"
    "length cnt' = length cnt1"
  using assms
  by (auto simp: reassignPoints_thread_def rd_def wr_def
      split: Option.bind_splits if_splits prod.splits)

lemma rebalanced_step:
  assumes th: "reassignPoints_thread H n k ds ic (cnt, asg) m = Some (cnt', asg')"
    and ic: "length ic = H" "\<forall>h < H. h < length cnt0 \<and> ic ! h = cnt0 ! h"
    and inv: "rebalanced H n k ds cnt0 asg0 m (cnt, asg)"
  shows "rebalanced H n k ds cnt0 asg0 (Suc m) (cnt', asg')"
proof -
  from inv have len: "length asg = n" "length cnt = length cnt0"
    and pts: "\<forall>p < n. (p < m \<longrightarrow> asg0 ! p < H \<and>
                     (if cnt0 ! (asg0 ! p) < k
                      then asg ! p < H \<and> k \<le> cnt0 ! (asg ! p) \<and>
                           (\<forall>h < H. k \<le> cnt0 ! h \<longrightarrow> ds ! (asg ! p * n + p) \<le> ds ! (h * n + p))
                      else asg ! p = asg0 ! p)) \<and>
                  (m \<le> p \<longrightarrow> asg ! p = asg0 ! p)"
    and big: "\<forall>h < H. k \<le> cnt0 ! h \<longrightarrow> cnt ! h = population asg h \<and> cnt0 ! h \<le> cnt ! h"
    and small: "\<forall>h < H. cnt0 ! h < k \<longrightarrow> cnt ! h = (if h < m then 0 else cnt0 ! h)"
    unfolding rebalanced_def prod.case by blast+
  from th obtain cnt1 where
    pt: "if m < n then reassign_point H n k ds ic (cnt, asg) m = Some (cnt1, asg')
         else cnt1 = cnt \<and> asg' = asg"
    and zero: "if m < H \<and> ic ! m < k then m < length cnt1 \<and> cnt' = cnt1[m := 0] else cnt' = cnt1"
    and len1: "length cnt' = length cnt1"
    by (rule reassignPoints_thread_effect)
  have mid: "length asg' = n \<and> length cnt1 = length cnt0 \<and>
     (\<forall>p < n. (p < Suc m \<longrightarrow> asg0 ! p < H \<and>
                     (if cnt0 ! (asg0 ! p) < k
                      then asg' ! p < H \<and> k \<le> cnt0 ! (asg' ! p) \<and>
                           (\<forall>h < H. k \<le> cnt0 ! h \<longrightarrow> ds ! (asg' ! p * n + p) \<le> ds ! (h * n + p))
                      else asg' ! p = asg0 ! p)) \<and>
                  (Suc m \<le> p \<longrightarrow> asg' ! p = asg0 ! p)) \<and>
     (\<forall>h < H. k \<le> cnt0 ! h \<longrightarrow> cnt1 ! h = population asg' h \<and> cnt0 ! h \<le> cnt1 ! h) \<and>
     (\<forall>h < H. cnt0 ! h < k \<longrightarrow> cnt1 ! h = cnt ! h)"
  proof (cases "m < n")
    case False
    with pt have "cnt1 = cnt" "asg' = asg" by simp_all
    with False len pts big show ?thesis by (auto simp: less_Suc_eq)
  next
    case True
    with pt have rp: "reassign_point H n k ds ic (cnt, asg) m = Some (cnt1, asg')" by simp
    note e = reassign_point_effect [OF rp]
    from pts True have am: "asg ! m = asg0 ! m" by simp
    from e ic am have curH: "asg0 ! m < H" by simp
    then have icm: "ic ! (asg0 ! m) = cnt0 ! (asg0 ! m)" using ic by simp
    show ?thesis
    proof (cases "cnt0 ! (asg0 ! m) < k")
      case False
      with e am icm have "cnt1 = cnt" "asg' = asg" by simp_all
      with False True len pts big curH am show ?thesis by (auto simp: less_Suc_eq)
    next
      case sm: True
      with e am icm obtain nh where nh: "nh < H" "k \<le> ic ! nh" "nh < length cnt"
        "\<forall>h < H. k \<le> ic ! h \<longrightarrow> ds ! (nh * n + m) \<le> ds ! (h * n + m)"
        "asg' = asg[m := nh]" "cnt1 = cnt[nh := cnt ! nh + 1]"
        by auto
      have icnh: "ic ! nh = cnt0 ! nh" using ic nh(1) by simp
      have near: "\<forall>h < H. k \<le> cnt0 ! h \<longrightarrow> ds ! (nh * n + m) \<le> ds ! (h * n + m)"
        using nh(4) ic by simp
      have p1: "length asg' = n" "length cnt1 = length cnt0" using nh len by simp_all
      have p2: "(p < Suc m \<longrightarrow> asg0 ! p < H \<and>
                     (if cnt0 ! (asg0 ! p) < k
                      then asg' ! p < H \<and> k \<le> cnt0 ! (asg' ! p) \<and>
                           (\<forall>h < H. k \<le> cnt0 ! h \<longrightarrow> ds ! (asg' ! p * n + p) \<le> ds ! (h * n + p))
                      else asg' ! p = asg0 ! p)) \<and>
                  (Suc m \<le> p \<longrightarrow> asg' ! p = asg0 ! p)" if p: "p < n" for p
      proof (cases "p = m")
        case True
        then have "asg' ! p = nh" using nh(5) len \<open>m < n\<close> by simp
        with True sm curH nh(1,2) icnh near show ?thesis by simp
      next
        case False
        then have "asg' ! p = asg ! p" using nh(5) by simp
        with False pts p show ?thesis by (auto simp: less_Suc_eq)
      qed
      have p3: "cnt1 ! h = population asg' h \<and> cnt0 ! h \<le> cnt1 ! h"
        if h: "h < H" "k \<le> cnt0 ! h" for h
      proof -
        have "asg ! m \<noteq> h" using am sm h by auto
        then have "population asg' h = population asg h + (if nh = h then 1 else 0)"
          using count_list_update [of m asg h nh] len \<open>m < n\<close> nh(5)
          by (simp add: population_def)
        moreover have "cnt1 ! h = cnt ! h + (if nh = h then 1 else 0)"
          using nh(3,6) by (cases "nh = h") simp_all
        moreover from big h have "cnt ! h = population asg h" "cnt0 ! h \<le> cnt ! h" by auto
        ultimately show ?thesis by auto
      qed
      have p4: "cnt1 ! h = cnt ! h" if h: "h < H" "cnt0 ! h < k" for h
      proof -
        have "nh \<noteq> h" using nh(2) icnh h by auto
        then show ?thesis using nh(6) by simp
      qed
      from p1 p2 p3 p4 show ?thesis by blast
    qed
  qed
  from mid have mid_big: "cnt1 ! h = population asg' h \<and> cnt0 ! h \<le> cnt1 ! h"
    if "h < H" "k \<le> cnt0 ! h" for h using that by blast
  from mid have mid_small: "cnt1 ! h = cnt ! h" if "h < H" "cnt0 ! h < k" for h
    using that by blast
  from small have small': "cnt ! h = (if h < m then 0 else cnt0 ! h)"
    if "h < H" "cnt0 ! h < k" for h using that by blast
  have fin_big: "cnt' ! h = population asg' h \<and> cnt0 ! h \<le> cnt' ! h"
    if h: "h < H" "k \<le> cnt0 ! h" for h
  proof -
    have "cnt' ! h = cnt1 ! h"
    proof (cases "m < H \<and> ic ! m < k")
      case True
      then have "m \<noteq> h" using ic h by auto
      with zero True show ?thesis by simp
    next
      case False
      with zero show ?thesis by simp
    qed
    with mid_big [OF h] show ?thesis by simp
  qed
  have fin_small: "cnt' ! h = (if h < Suc m then 0 else cnt0 ! h)"
    if h: "h < H" "cnt0 ! h < k" for h
  proof (cases "h = m")
    case True
    with h ic have "m < H \<and> ic ! m < k" by simp
    with zero True show ?thesis by simp
  next
    case False
    have "cnt' ! h = cnt1 ! h"
    proof (cases "m < H \<and> ic ! m < k")
      case True
      with zero False show ?thesis by simp
    next
      case False
      with zero show ?thesis by simp
    qed
    with mid_small [OF h] small' [OF h] False show ?thesis by (auto simp: less_Suc_eq)
  qed
  from mid have fa: "length asg' = n" and fc: "length cnt1 = length cnt0"
    and fp: "\<forall>p < n. (p < Suc m \<longrightarrow> asg0 ! p < H \<and>
                     (if cnt0 ! (asg0 ! p) < k
                      then asg' ! p < H \<and> k \<le> cnt0 ! (asg' ! p) \<and>
                           (\<forall>h < H. k \<le> cnt0 ! h \<longrightarrow> ds ! (asg' ! p * n + p) \<le> ds ! (h * n + p))
                      else asg' ! p = asg0 ! p)) \<and>
                  (Suc m \<le> p \<longrightarrow> asg' ! p = asg0 ! p)"
    by blast+
  show ?thesis
    unfolding rebalanced_def prod.case
  proof (intro conjI)
    show "length asg' = n" by fact
    show "length cnt' = length cnt0" using len1 fc by simp
    show "\<forall>h < H. k \<le> cnt0 ! h \<longrightarrow> cnt' ! h = population asg' h \<and> cnt0 ! h \<le> cnt' ! h"
      using fin_big by blast
    show "\<forall>h < H. cnt0 ! h < k \<longrightarrow> cnt' ! h = (if h < Suc m then 0 else cnt0 ! h)"
      using fin_small by blast
  qed (rule fp)
qed

lemma reassign_threads:
  assumes run: "run_warps (reassignPoints_thread H n k ds ic) [0..<m] (cnt0, asg0) = Some s"
    and ic: "length ic = H" "\<forall>h < H. h < length cnt0 \<and> ic ! h = cnt0 ! h"
    and init: "rebalanced H n k ds cnt0 asg0 0 (cnt0, asg0)"
  shows "rebalanced H n k ds cnt0 asg0 m s"
  using run
proof (induction m arbitrary: s)
  case 0
  then show ?case using init by simp
next
  case (Suc m)
  from Suc.prems obtain s1 where
    s1: "run_warps (reassignPoints_thread H n k ds ic) [0..<m] (cnt0, asg0) = Some s1"
    and th: "reassignPoints_thread H n k ds ic s1 m = Some s"
    by (rule run_warps_upt_SucE)
  obtain cnt1 asg1 where [simp]: "s1 = (cnt1, asg1)" by (cases s1)
  obtain cnt asg where [simp]: "s = (cnt, asg)" by (cases s)
  from rebalanced_step [OF th [simplified] ic] Suc.IH [OF s1] show ?case by simp
qed

lemma ex_rd_ds: "rd ex_ds i = (if i < 96 then Some (if i = 2 then 5 else 1) else None)"
  by (simp only: ex_ds_def rd_map_upt)

lemma ex_reassign:
  "reassignPoints 32 3 2 32 ex_ds (ex_cnt, [0, 0, 1]) =
     Some ([3, 0, 0, 0, 0, 0, 0, 0, 0, 0, 0, 0, 0, 0, 0, 0, 0, 0, 0, 0, 0, 0, 0, 0, 0, 0, 0, 0,
       0, 0, 0, 0, 0], [0, 0, 0])"
proof -
  have ic: "those_opt (map (rd ex_cnt) [0..<32]) = Some (take 32 ex_cnt)"
    by (rule those_opt_map_rd) (simp add: ex_cnt_def)
  show ?thesis
    unfolding reassignPoints_def
    apply (simp only: ic fst_conv)
    apply (simp add: upt_32 ex_cnt_def reassignPoints_thread_def reassign_point_def
        reassign_step_def ex_rd_ds rd_simps wr_simps wr_numeral FLT_MAX_def)
    done
qed

text \<open>
  C2, as the spec states it, fails: \<open>k < n\<close> does not make a target hub exist. With
  three points in three hubs of one point each and \<open>k = 2\<close>, no hub has \<open>k\<close> points,
  the loop of point 0 leaves \<open>new_hub = H\<close> and the kernel fails its assertion: there is
  no state after the stage.
\<close>

theorem reassignPoints_no_target:
  "(2::nat) < 3 \<and> map (population [0, 1, 2]) [0..<32] = take 32 ex_cnt_low \<and>
   reassignPoints 32 3 2 32 ex_ds (ex_cnt_low, [0, 1, 2]) = None"
proof -
  have ic: "those_opt (map (rd ex_cnt_low) [0..<32]) = Some (take 32 ex_cnt_low)"
    by (rule those_opt_map_rd) (simp add: ex_cnt_low_def)
  have "reassignPoints 32 3 2 32 ex_ds (ex_cnt_low, [0, 1, 2]) = None"
    unfolding reassignPoints_def
    apply (simp only: ic fst_conv)
    apply (simp add: upt_32 ex_cnt_low_def reassignPoints_thread_def reassign_point_def
        reassign_step_def ex_rd_ds rd_simps wr_simps wr_numeral FLT_MAX_def)
    done
  moreover have "map (population [0, 1, 2]) [0..<32] = take 32 ex_cnt_low"
    by (simp add: upt_32 population_def ex_cnt_low_def)
  ultimately show ?thesis by simp
qed

text \<open>
  C2, amended. For a launch of one block that covers the \<open>n\<close> points and the \<open>H\<close>
  hubs, on counters that are the populations of the assignment table: whenever the
  kernel passes its assertions (which needs, beyond \<open>k < n\<close>, a hub of at least \<open>k\<close>
  points for the points of every smaller hub), afterwards every counter is the
  population of its hub and is 0 or at least \<open>k\<close>; a hub that had fewer than \<open>k\<close> points
  has counter 0 and no point; each of its points is assigned to the nearest hub among
  those that had at least \<open>k\<close> points before the kernel; and the other points stay.
\<close>

theorem reassignPoints_rebalances:
  assumes run: "reassignPoints H n k threads distances (hub_counts, dH_assignments) =
      Some (hub_counts', dH_assignments')"
    and cover: "n \<le> threads"
    and len: "length dH_assignments = n"
    and pop: "\<forall>h < H. hub_counts ! h = population dH_assignments h"
  shows "(\<forall>h < H. (0 < hub_counts' ! h \<longrightarrow> k \<le> hub_counts' ! h) \<and>
            hub_counts' ! h = population dH_assignments' h \<and>
            (hub_counts ! h < k \<longrightarrow> hub_counts' ! h = 0)) \<and>
         (\<forall>p < n. if hub_counts ! (dH_assignments ! p) < k
            then dH_assignments' ! p < H \<and> k \<le> hub_counts ! (dH_assignments' ! p) \<and>
                 (\<forall>h < H. k \<le> hub_counts ! h \<longrightarrow>
                    distances ! (dH_assignments' ! p * n + p) \<le> distances ! (h * n + p))
            else dH_assignments' ! p = dH_assignments ! p)"
proof -
  from run obtain ic where Ht: "H \<le> threads"
    and snap: "those_opt (map (rd hub_counts) [0..<H]) = Some ic"
    and thr: "run_warps (reassignPoints_thread H n k distances ic) [0..<threads]
        (hub_counts, dH_assignments) = Some (hub_counts', dH_assignments')"
    by (auto simp: reassignPoints_def split: if_splits Option.bind_splits)
  note ic = snapshot_counts [OF snap]
  have init: "rebalanced H n k distances hub_counts dH_assignments 0 (hub_counts, dH_assignments)"
    using len pop by (simp add: rebalanced_def)
  from reassign_threads [OF thr _ _ init] ic
  have "rebalanced H n k distances hub_counts dH_assignments threads (hub_counts', dH_assignments')"
    by blast
  then have la: "length dH_assignments' = n"
    and pts: "\<forall>p < n. (p < threads \<longrightarrow> dH_assignments ! p < H \<and>
                     (if hub_counts ! (dH_assignments ! p) < k
                      then dH_assignments' ! p < H \<and> k \<le> hub_counts ! (dH_assignments' ! p) \<and>
                           (\<forall>h < H. k \<le> hub_counts ! h \<longrightarrow>
                              distances ! (dH_assignments' ! p * n + p) \<le> distances ! (h * n + p))
                      else dH_assignments' ! p = dH_assignments ! p)) \<and>
                  (threads \<le> p \<longrightarrow> dH_assignments' ! p = dH_assignments ! p)"
    and big: "\<forall>h < H. k \<le> hub_counts ! h \<longrightarrow>
        hub_counts' ! h = population dH_assignments' h \<and> hub_counts ! h \<le> hub_counts' ! h"
    and small: "\<forall>h < H. hub_counts ! h < k \<longrightarrow>
        hub_counts' ! h = (if h < threads then 0 else hub_counts ! h)"
    unfolding rebalanced_def prod.case by blast+
  have pt: "if hub_counts ! (dH_assignments ! p) < k
            then dH_assignments' ! p < H \<and> k \<le> hub_counts ! (dH_assignments' ! p) \<and>
                 (\<forall>h < H. k \<le> hub_counts ! h \<longrightarrow>
                    distances ! (dH_assignments' ! p * n + p) \<le> distances ! (h * n + p))
            else dH_assignments' ! p = dH_assignments ! p" if "p < n" for p
    using pts [rule_format, OF that] that cover by simp
  have inbig: "k \<le> hub_counts ! (dH_assignments' ! p)" if "p < n" for p
    using pt [OF that] by (auto split: if_splits)
  have hub: "(0 < hub_counts' ! h \<longrightarrow> k \<le> hub_counts' ! h) \<and>
            hub_counts' ! h = population dH_assignments' h \<and>
            (hub_counts ! h < k \<longrightarrow> hub_counts' ! h = 0)" if h: "h < H" for h
  proof (cases "hub_counts ! h < k")
    case True
    with small h Ht have z: "hub_counts' ! h = 0" by simp
    have "h \<notin> set dH_assignments'"
    proof
      assume "h \<in> set dH_assignments'"
      then obtain p where "p < n" "dH_assignments' ! p = h"
        using la by (auto simp: in_set_conv_nth)
      with inbig [of p] True show False by simp
    qed
    then have "population dH_assignments' h = 0" by (simp add: population_def)
    with z show ?thesis by simp
  next
    case False
    with big h have "hub_counts' ! h = population dH_assignments' h"
      "hub_counts ! h \<le> hub_counts' ! h" by auto
    with False show ?thesis by auto
  qed
  from hub pt show ?thesis by blast
qed

theorem reassignPoints_rebalances_witness:
  "reassignPoints 32 3 2 32 ex_ds (ex_cnt, [0, 0, 1]) =
     Some ([3, 0, 0, 0, 0, 0, 0, 0, 0, 0, 0, 0, 0, 0, 0, 0, 0, 0, 0, 0, 0, 0, 0, 0, 0, 0, 0, 0,
       0, 0, 0, 0, 0], [0, 0, 0]) \<and>
   (3::nat) \<le> 32 \<and> length [0, 0, 1 :: nat] = 3 \<and>
   map (population [0, 0, 1]) [0..<32] = take 32 ex_cnt \<and>
   population [0, 0, 0] 0 = 3 \<and> population [0, 0, 0] 1 = 0"
proof -
  have pop: "\<forall>h < 32. ex_cnt ! h = population [0, 0, 1] h"
    by (simp add: all_less_list_all upt_32 population_def ex_cnt_def)
  have "(3::nat) \<le> 32" "length [0, 0, 1 :: nat] = 3" by simp_all
  note t = reassignPoints_rebalances [OF ex_reassign this pop]
  from t have "population [0, 0, 0] 0 = 3" "population [0, 0, 0] 1 = 0"
    by (simp_all add: population_def)
  moreover have "map (population [0, 0, 1]) [0..<32] = take 32 ex_cnt"
    by (simp add: upt_32 population_def ex_cnt_def)
  ultimately show ?thesis using ex_reassign by simp
qed

subsection \<open>Bucketing\<close>

lemma segment_start_Suc:
  "segment_start asg (Suc h) = segment_start asg h + population asg h"
  by (simp add: segment_start_def)

lemma segment_start_mono: "h \<le> h' \<Longrightarrow> segment_start asg h \<le> segment_start asg h'"
proof (induction h' rule: nat_induct)
  case 0
  then show ?case by simp
next
  case (Suc h')
  then show ?case by (cases "h = Suc h'") (auto simp: segment_start_Suc)
qed

lemma population_card:
  "population asg h = card {p. p < length asg \<and> asg ! p = h}"
proof -
  have "count_list asg h = length (filter ((=) h) asg)"
    by (induction asg) auto
  also have "\<dots> = card {p. p < length asg \<and> h = asg ! p}"
    by (rule length_filter_conv_card)
  also have "{p. p < length asg \<and> h = asg ! p} = {p. p < length asg \<and> asg ! p = h}" by auto
  finally show ?thesis by (simp add: population_def)
qed

lemma segment_start_total:
  assumes "\<forall>a \<in> set asg. a < H"
  shows "segment_start asg H = length asg"
proof -
  have "segment_start asg H = card {p. p < length asg \<and> asg ! p < H}"
  proof (induction H)
    case 0
    then show ?case by (simp add: segment_start_def)
  next
    case (Suc H)
    have "{p. p < length asg \<and> asg ! p < Suc H} =
        {p. p < length asg \<and> asg ! p < H} \<union> {p. p < length asg \<and> asg ! p = H}"
      by auto
    moreover have "{p. p < length asg \<and> asg ! p < H} \<inter> {p. p < length asg \<and> asg ! p = H} = {}"
      by auto
    ultimately have "card {p. p < length asg \<and> asg ! p < Suc H} =
        card {p. p < length asg \<and> asg ! p < H} + card {p. p < length asg \<and> asg ! p = H}"
      by (simp add: card_Un_disjoint)
    with Suc show ?case by (simp add: segment_start_Suc population_card)
  qed
  also have "{p. p < length asg \<and> asg ! p < H} = {..<length asg}"
    using assms by auto
  finally show ?thesis by simp
qed

lemma processed_card_le:
  assumes "length asg = n" "finite seen"
  shows "card {p \<in> seen. p < n \<and> asg ! p = h} \<le> population asg h"
proof -
  have "{p \<in> seen. p < n \<and> asg ! p = h} \<subseteq> {p. p < length asg \<and> asg ! p = h}"
    using assms by auto
  then show ?thesis unfolding population_card by (intro card_mono) auto
qed

lemma processed_card_less:
  assumes "length asg = n" "finite seen" "t \<notin> seen" "t < n" "asg ! t = h"
  shows "card {p \<in> seen. p < n \<and> asg ! p = h} < population asg h"
proof -
  have "{p \<in> seen. p < n \<and> asg ! p = h} \<subset> {p. p < length asg \<and> asg ! p = h}"
    using assms by auto
  then show ?thesis unfolding population_card by (intro psubset_card_mono) auto
qed

lemma BucketSort_thread_step:
  assumes inv: "bucketed H n points asg seen st"
    and fin: "finite seen" and t: "t \<notin> seen"
    and wf: "length asg = n" "\<forall>a \<in> set asg. a < H" "length points = n * dim"
  shows "\<exists>st'. BucketSort_thread n points asg st t = Some st' \<and>
           bucketed H n points asg (insert t seen) st'"
proof (cases "t < n")
  case False
  then have "BucketSort_thread n points asg st t = Some st"
    by (simp add: BucketSort_thread_def)
  moreover have "{p \<in> insert t seen. p < n \<and> asg ! p = h} = {p \<in> seen. p < n \<and> asg ! p = h}" for h
    using False by auto
  ultimately show ?thesis using inv False by (auto simp: bucketed_def)
next
  case True
  let ?hub = "asg ! t"
  let ?loc = "bk_psum st ! ?hub"
  from inv have len: "length (bk_arr_x st) = n" "length (bk_arr_y st) = n"
    "length (bk_arr_z st) = n" "length (bk_arr_idx st) = n" "H < length (bk_psum st)"
    and cur: "\<forall>h < H. bk_psum st ! h =
        segment_start asg h + card {p \<in> seen. p < n \<and> asg ! p = h}"
    and pl: "\<forall>p \<in> seen. p < n \<longrightarrow>
        (\<exists>loc. segment_start asg (asg ! p) \<le> loc \<and> loc < bk_psum st ! (asg ! p) \<and>
           placed points st p loc)"
    unfolding bucketed_def by blast+
  have hub: "?hub < H" using wf True by simp
  have loc: "?loc = segment_start asg ?hub + card {p \<in> seen. p < n \<and> asg ! p = ?hub}"
    using cur hub by simp
  have below: "bk_psum st ! h \<le> segment_start asg (Suc h)" if "h < H" for h
    using cur that processed_card_le [OF wf(1) fin, of h] by (simp add: segment_start_Suc)
  have loc_lt: "?loc < segment_start asg (Suc ?hub)"
    using loc processed_card_less [OF wf(1) fin t True refl] by (simp add: segment_start_Suc)
  have "segment_start asg (Suc ?hub) \<le> segment_start asg H"
    using hub by (intro segment_start_mono) simp
  with loc_lt segment_start_total [OF wf(2)] wf(1) have loc_n: "?loc < n" by simp
  have pts: "t * dim + 2 < length points" using True wf(3) by (simp add: dim_def)
  define st' where "st' = \<lparr>bk_arr_x = (bk_arr_x st)[?loc := points ! (t * dim)],
      bk_arr_y = (bk_arr_y st)[?loc := points ! (t * dim + 1)],
      bk_arr_z = (bk_arr_z st)[?loc := points ! (t * dim + 2)],
      bk_arr_idx = (bk_arr_idx st)[?loc := t],
      bk_psum = (bk_psum st)[?hub := ?loc + 1]\<rparr>"
  have run: "BucketSort_thread n points asg st t = Some st'"
    using True wf(1) hub len loc_n pts
    by (simp add: BucketSort_thread_def rd_def wr_def st'_def)
  have cur': "bk_psum st' ! h = segment_start asg h + card {p \<in> insert t seen. p < n \<and> asg ! p = h}"
    if h: "h < H" for h
  proof (cases "h = ?hub")
    case eq: True
    have "{p \<in> insert t seen. p < n \<and> asg ! p = h} =
        insert t {p \<in> seen. p < n \<and> asg ! p = h}"
      using True eq by auto
    moreover have "t \<notin> {p \<in> seen. p < n \<and> asg ! p = h}" using t by simp
    moreover have "finite {p \<in> seen. p < n \<and> asg ! p = h}" using fin by simp
    ultimately have "card {p \<in> insert t seen. p < n \<and> asg ! p = h} =
        Suc (card {p \<in> seen. p < n \<and> asg ! p = h})"
      by simp
    with eq loc len hub show ?thesis by (simp add: st'_def)
  next
    case False
    then have "{p \<in> insert t seen. p < n \<and> asg ! p = h} = {p \<in> seen. p < n \<and> asg ! p = h}"
      by auto
    with False cur h show ?thesis by (simp add: st'_def)
  qed
  have mono: "bk_psum st ! h \<le> bk_psum st' ! h" for h
    using hub len by (cases "h = ?hub") (simp_all add: st'_def)
  have pl': "\<exists>loc. segment_start asg (asg ! p) \<le> loc \<and> loc < bk_psum st' ! (asg ! p) \<and>
           placed points st' p loc" if p: "p \<in> insert t seen" "p < n" for p
  proof (cases "p = t")
    case True
    have "placed points st' t ?loc"
      using loc_n len by (simp add: placed_def st'_def)
    moreover have "segment_start asg ?hub \<le> ?loc" using loc by simp
    moreover have "?loc < bk_psum st' ! ?hub" using len hub by (simp add: st'_def)
    ultimately show ?thesis using True by blast
  next
    case False
    with p have pd: "p \<in> seen" by simp
    with pl p obtain l where l: "segment_start asg (asg ! p) \<le> l" "l < bk_psum st ! (asg ! p)"
      "placed points st p l"
      by blast
    have ph: "asg ! p < H" using wf p by simp
    have "l \<noteq> ?loc"
    proof (cases "asg ! p = ?hub")
      case True
      with l show ?thesis by simp
    next
      case False
      then consider "asg ! p < ?hub" | "?hub < asg ! p" by linarith
      then show ?thesis
      proof cases
        case 1
        then have "segment_start asg (Suc (asg ! p)) \<le> segment_start asg ?hub"
          by (intro segment_start_mono) simp
        with l(2) below [OF ph] loc show ?thesis by simp
      next
        case 2
        then have "segment_start asg (Suc ?hub) \<le> segment_start asg (asg ! p)"
          by (intro segment_start_mono) simp
        with l(1) loc_lt show ?thesis by simp
      qed
    qed
    then have "placed points st' p l" using l(3) by (simp add: placed_def st'_def)
    moreover have "l < bk_psum st' ! (asg ! p)" using l(2) mono [of "asg ! p"] by simp
    ultimately show ?thesis using l(1) by blast
  qed
  have "bucketed H n points asg (insert t seen) st'"
    unfolding bucketed_def
  proof (intro conjI)
    show "\<forall>h < H. bk_psum st' ! h =
        segment_start asg h + card {p \<in> insert t seen. p < n \<and> asg ! p = h}"
      using cur' by blast
    show "\<forall>p \<in> insert t seen. p < n \<longrightarrow>
        (\<exists>loc. segment_start asg (asg ! p) \<le> loc \<and> loc < bk_psum st' ! (asg ! p) \<and>
           placed points st' p loc)"
      using pl' by blast
  qed (use len in \<open>simp_all add: st'_def\<close>)
  with run show ?thesis by blast
qed

lemma BucketSort_threads:
  assumes wf: "length asg = n" "\<forall>a \<in> set asg. a < H" "length points = n * dim"
  shows "distinct order \<Longrightarrow> set order \<inter> seen = {} \<Longrightarrow> finite seen \<Longrightarrow>
         bucketed H n points asg seen st \<Longrightarrow>
         \<exists>st'. run_warps (BucketSort_thread n points asg) order st = Some st' \<and>
           bucketed H n points asg (seen \<union> set order) st'"
proof (induction order arbitrary: seen st)
  case Nil
  then show ?case by simp
next
  case (Cons t order)
  from Cons.prems have t: "t \<notin> seen" by auto
  from BucketSort_thread_step [OF Cons.prems(4,3) t wf]
  obtain st1 where s1: "BucketSort_thread n points asg st t = Some st1"
    "bucketed H n points asg (insert t seen) st1"
    by blast
  from Cons.prems have "distinct order" "set order \<inter> insert t seen = {}" "finite (insert t seen)"
    by auto
  from Cons.IH [OF this s1(2)] s1(1) show ?case by auto
qed

lemma covers_is_permutation:
  assumes "length xs = n" "\<forall>p < n. p \<in> set xs"
  shows "mset xs = mset [0..<n]"
proof -
  have sub: "{..<n} \<subseteq> set xs" using assms(2) by auto
  have "card (set xs) \<le> n" using assms(1) card_length [of xs] by simp
  moreover have "n \<le> card (set xs)" using card_mono [OF _ sub] by simp
  ultimately have c: "card (set xs) = n" by simp
  then have d: "distinct xs" using assms(1) by (simp add: card_distinct)
  have "{..<n} = set xs"
  proof (rule card_subset_eq)
    show "finite (set xs)" by simp
    show "{..<n} \<subseteq> set xs" by (rule sub)
    show "card {..<n} = card (set xs)" by (simp only: c card_lessThan)
  qed
  then have "set xs = set [0..<n]" by (simp only: set_upt atLeast0LessThan)
  moreover have "distinct [0..<n]" by simp
  ultimately show ?thesis using d by (simp only: set_eq_iff_mset_eq_distinct [symmetric])
qed

lemma ex_segments: "\<forall>h < 32. bk_psum ex_bucket ! h = segment_start [1, 0] h"
proof (intro allI impI)
  fix h :: nat assume "h < 32"
  consider "h = 0" | "h = 1" | "2 \<le> h" by linarith
  then show "bk_psum ex_bucket ! h = segment_start [1, 0] h"
  proof cases
    case 1
    then show ?thesis by (simp add: ex_bucket_def segment_start_def)
  next
    case 2
    then show ?thesis by (simp add: ex_bucket_def segment_start_def population_def)
  next
    case 3
    then have "\<forall>a \<in> set [1, 0]. a < h" by auto
    from segment_start_total [OF this] have "segment_start [1, 0] h = 2" by simp
    moreover have "h = Suc (Suc (h - 2))" "h - 2 < 31"
      using 3 \<open>h < 32\<close> by linarith+
    then have "bk_psum ex_bucket ! h = 2"
      by (metis ex_bucket_def bucket_state.select_convs(5) nth_Cons_Suc nth_replicate)
    ultimately show ?thesis by simp
  qed
qed

text \<open>
  C8. Whatever the order in which the threads of the grid take their slots: when the
  cursors start at the exclusive prefix sums of the populations, the kernel returns, the
  bucketed identifier array is a permutation of \<open>[0, n)\<close>, and every point stands, with
  its coordinates, inside the segment of its assigned hub.
\<close>

theorem BucketSort_permutation:
  assumes order: "distinct order" "set order = {0..<BucketSort_grid n}"
    and wf: "length dH_assignments = n" "\<forall>a \<in> set dH_assignments. a < H"
      "length points = n * dim"
    and arrays: "length (bk_arr_x st) = n" "length (bk_arr_y st) = n" "length (bk_arr_z st) = n"
      "length (bk_arr_idx st) = n"
    and psum: "length (bk_psum st) = H + 1"
      "\<forall>h < H. bk_psum st ! h = segment_start dH_assignments h"
  shows "\<exists>st'. BucketSort n order points dH_assignments st = Some st' \<and>
           mset (bk_arr_idx st') = mset [0..<n] \<and>
           (\<forall>p < n. \<exists>loc. segment_start dH_assignments (dH_assignments ! p) \<le> loc \<and>
              loc < segment_start dH_assignments (dH_assignments ! p + 1) \<and>
              bk_arr_idx st' ! loc = p \<and> bk_arr_x st' ! loc = points ! (p * dim) \<and>
              bk_arr_y st' ! loc = points ! (p * dim + 1) \<and>
              bk_arr_z st' ! loc = points ! (p * dim + 2))"
proof -
  have init: "bucketed H n points dH_assignments {} st"
    using arrays psum by (simp add: bucketed_def)
  from BucketSort_threads [OF wf order(1) _ _ init]
  obtain st' where run: "run_warps (BucketSort_thread n points dH_assignments) order st = Some st'"
    and inv: "bucketed H n points dH_assignments (set order) st'"
    by auto
  have fin: "finite (set order)" by simp
  have grid: "n \<le> BucketSort_grid n" by (simp add: BucketSort_grid_def)
  from inv have len: "length (bk_arr_idx st') = n"
    and cur: "\<forall>h < H. bk_psum st' ! h =
        segment_start dH_assignments h + card {p \<in> set order. p < n \<and> dH_assignments ! p = h}"
    and pl: "\<forall>p \<in> set order. p < n \<longrightarrow>
        (\<exists>loc. segment_start dH_assignments (dH_assignments ! p) \<le> loc \<and>
           loc < bk_psum st' ! (dH_assignments ! p) \<and> placed points st' p loc)"
    unfolding bucketed_def by blast+
  have seg: "\<exists>loc. segment_start dH_assignments (dH_assignments ! p) \<le> loc \<and>
              loc < segment_start dH_assignments (dH_assignments ! p + 1) \<and> loc < n \<and>
              placed points st' p loc" if p: "p < n" for p
  proof -
    let ?hub = "dH_assignments ! p"
    have hub: "?hub < H" using wf p by simp
    have "p \<in> set order" using p grid order(2) by simp
    with pl p obtain loc where loc: "segment_start dH_assignments ?hub \<le> loc"
      "loc < bk_psum st' ! ?hub" "placed points st' p loc"
      by blast
    have "bk_psum st' ! ?hub \<le> segment_start dH_assignments (Suc ?hub)"
      using cur hub processed_card_le [OF wf(1) fin, of ?hub] by (simp add: segment_start_Suc)
    with loc(2) have lt: "loc < segment_start dH_assignments (?hub + 1)" by simp
    have "segment_start dH_assignments (?hub + 1) \<le> segment_start dH_assignments H"
      using hub by (intro segment_start_mono) simp
    with lt segment_start_total [OF wf(2)] wf(1) have "loc < n" by simp
    with loc lt show ?thesis by blast
  qed
  have "p \<in> set (bk_arr_idx st')" if "p < n" for p
    using seg [OF that] len by (auto simp: placed_def in_set_conv_nth)
  then have "mset (bk_arr_idx st') = mset [0..<n]"
    using len by (intro covers_is_permutation) auto
  moreover have "\<exists>loc. segment_start dH_assignments (dH_assignments ! p) \<le> loc \<and>
              loc < segment_start dH_assignments (dH_assignments ! p + 1) \<and>
              bk_arr_idx st' ! loc = p \<and> bk_arr_x st' ! loc = points ! (p * dim) \<and>
              bk_arr_y st' ! loc = points ! (p * dim + 1) \<and>
              bk_arr_z st' ! loc = points ! (p * dim + 2)" if "p < n" for p
    using seg [OF that] by (auto simp: placed_def)
  ultimately show ?thesis using run by (auto simp: BucketSort_def)
qed

theorem BucketSort_permutation_witness:
  "distinct (rev [0..<1024]) \<and> set (rev [0..<1024]) = {0..<BucketSort_grid 2} \<and>
   length [1, 0 :: nat] = 2 \<and> list_all (\<lambda>a. a < 32) [1, 0 :: nat] \<and>
   length (bk_psum ex_bucket) = 32 + 1 \<and>
   bk_psum ex_bucket ! 1 = segment_start [1, 0] 1 \<and>
   (\<exists>st'. BucketSort 2 (rev [0..<1024]) [0, 0, 0, 1, 0, 0] [1, 0] ex_bucket = Some st' \<and>
      mset (bk_arr_idx st') = mset [0..<2])"
proof -
  have o: "distinct (rev [0..<1024])" "set (rev [0..<1024]) = {0..<BucketSort_grid 2}"
    by (simp_all add: BucketSort_grid_def)
  have wf: "length [1, 0 :: nat] = 2" "\<forall>a \<in> set [1, 0 :: nat]. a < 32"
    "length [0, 0, 0, 1, 0, 0 :: real] = 2 * dim"
    by (simp_all add: dim_def)
  have a: "length (bk_arr_x ex_bucket) = 2" "length (bk_arr_y ex_bucket) = 2"
    "length (bk_arr_z ex_bucket) = 2" "length (bk_arr_idx ex_bucket) = 2"
    "length (bk_psum ex_bucket) = 32 + 1"
    by (simp_all add: ex_bucket_def)
  from BucketSort_permutation [OF o wf a ex_segments]
  have "\<exists>st'. BucketSort 2 (rev [0..<1024]) [0, 0, 0, 1, 0, 0] [1, 0] ex_bucket = Some st' \<and>
      mset (bk_arr_idx st') = mset [0..<2]"
    by blast
  moreover have "list_all (\<lambda>a. a < 32) [1, 0 :: nat]" by simp
  moreover have "bk_psum ex_bucket ! 1 = segment_start [1, 0] 1"
    using ex_segments by simp
  ultimately show ?thesis using o wf(1) a(5) by blast
qed

subsection \<open>The prefix sum\<close>

lemma length_prefix_sum_pass [simp]: "length (prefix_sum_pass vals stride) = length vals"
  by (simp add: prefix_sum_pass_def)

lemma prefix_sum_pass_window:
  assumes "windowed vals v s" "0 < s"
  shows "windowed vals (prefix_sum_pass v s) (2 * s)"
  unfolding windowed_def
proof (intro conjI allI impI)
  show "length (prefix_sum_pass v s) = length vals" using assms by (simp add: windowed_def)
next
  fix l assume l: "l < length vals"
  from assms have len: "length v = length vals"
    and w: "\<And>l. l < length vals \<Longrightarrow> v ! l = sum ((!) vals) {l + 1 - s..<l + 1}"
    by (simp_all add: windowed_def)
  show "prefix_sum_pass v s ! l = sum ((!) vals) {l + 1 - 2 * s..<l + 1}"
  proof (cases "s \<le> l")
    case True
    then have ls: "l - s < length vals" using l by simp
    have "prefix_sum_pass v s ! l = v ! l + v ! (l - s)"
      using True l len by (simp add: prefix_sum_pass_def shfl_up_def)
    also have "\<dots> = sum ((!) vals) {l + 1 - s..<l + 1} + sum ((!) vals) {l - s + 1 - s..<l - s + 1}"
      using w [OF l] w [OF ls] by simp
    also have "\<dots> = sum ((!) vals) {l + 1 - s..<l + 1} + sum ((!) vals) {l + 1 - 2 * s..<l + 1 - s}"
    proof -
      have "l - s + 1 - s = l + 1 - 2 * s" "l - s + 1 = l + 1 - s" using True by simp_all
      then show ?thesis by simp
    qed
    also have "\<dots> = sum ((!) vals) {l + 1 - 2 * s..<l + 1}"
    proof -
      have "l + 1 - 2 * s \<le> l + 1 - s" "l + 1 - s \<le> l + 1" by simp_all
      from sum.atLeastLessThan_concat [OF this, of "(!) vals"] show ?thesis
        by (simp only: add.commute)
    qed
    finally show ?thesis .
  next
    case False
    then have "prefix_sum_pass v s ! l = v ! l"
      using l len by (simp add: prefix_sum_pass_def)
    also have "\<dots> = sum ((!) vals) {l + 1 - s..<l + 1}" by (rule w [OF l])
    also have "l + 1 - s = l + 1 - 2 * s" using False by simp
    finally show ?thesis .
  qed
qed

lemma prefix_sum_loop_window:
  assumes "windowed vals v s" "0 < s" "length vals \<le> 32"
  shows "length (prefix_sum_loop s v) = length vals \<and>
         (\<forall>l < length vals. prefix_sum_loop s v ! l = sum ((!) vals) {..<l + 1})"
  using assms
proof (induction s v rule: prefix_sum_loop.induct)
  case (1 stride v)
  show ?case
  proof (cases "stride < 32")
    case True
    with "1.prems" have c: "0 < stride \<and> stride < 32" by simp
    from "1.IH" [OF c prefix_sum_pass_window [OF "1.prems"(1,2)]] "1.prems" c
    show ?thesis by (subst (1 2) prefix_sum_loop.simps) simp
  next
    case False
    then have e: "prefix_sum_loop stride v = v" by (subst prefix_sum_loop.simps) simp
    have "v ! l = sum ((!) vals) {..<l + 1}" if "l < length vals" for l
    proof -
      have "l + 1 - stride = 0" using False that "1.prems"(3) by simp
      with "1.prems"(1) that show ?thesis by (simp add: windowed_def atLeast0LessThan)
    qed
    with "1.prems"(1) e show ?thesis by (simp add: windowed_def)
  qed
qed

lemma prefix_sum_warp_scan:
  assumes "length vals \<le> 32"
  shows "length (prefix_sum_warp vals) = length vals"
    and "l < length vals \<Longrightarrow> prefix_sum_warp vals ! l = sum ((!) vals) {..<l + 1}"
proof -
  have "windowed vals vals 1" by (simp add: windowed_def)
  from prefix_sum_loop_window [OF this _ assms]
  show "length (prefix_sum_warp vals) = length vals"
    and "l < length vals \<Longrightarrow> prefix_sum_warp vals ! l = sum ((!) vals) {..<l + 1}"
    by (simp_all add: prefix_sum_warp_def)
qed

lemma warp_scan_nth:
  assumes "l < 32"
  shows "warp_scan arr base w ! l = (\<Sum>j < l + 1. arr ! (base + 32 * w + j))"
proof -
  let ?vals = "map (\<lambda>lane. arr ! (base + 32 * w + lane)) [0..<32]"
  have "warp_scan arr base w ! l = sum ((!) ?vals) {..<l + 1}"
    unfolding warp_scan_def using assms by (intro prefix_sum_warp_scan) simp_all
  also have "\<dots> = (\<Sum>j < l + 1. arr ! (base + 32 * w + j))"
    using assms by (intro sum.cong) auto
  finally show ?thesis .
qed


lemma fold_update_nth:
  "length (fold (\<lambda>w s. if P w then s[w + 1 := g w] else s) [0..<m] s) = length s \<and>
   (j < length s \<longrightarrow>
     fold (\<lambda>w s. if P w then s[w + 1 := g w] else s) [0..<m] s ! j =
       (if 0 < j \<and> j - 1 < m \<and> P (j - 1) then g (j - 1) else s ! j))"
proof (induction m)
  case 0
  show ?case by simp
next
  case (Suc m)
  then show ?case by (cases "j = Suc m") (auto simp: nth_list_update less_Suc_eq)
qed

lemma stage_totals_nth:
  "length (stage_totals H arr base smem) = length smem"
  "j < length smem \<Longrightarrow> stage_totals H arr base smem ! j =
     (if 0 < j \<and> j - 1 < 32 \<and> base + 32 * (j - 1) < H then warp_scan arr base (j - 1) ! 31
      else smem ! j)"
  unfolding stage_totals_def
  using fold_update_nth [of "\<lambda>w. base + 32 * w < H" "\<lambda>w. warp_scan arr base w ! 31" 32 smem j]
  by simp_all

lemma broadcast_totals_nth:
  "length (broadcast_totals wls smem) = length smem"
  "j < length smem \<Longrightarrow> broadcast_totals wls smem ! j =
     (if 0 < j \<and> j - 1 < 32 then wls ! (j - 1) else smem ! j)"
  unfolding broadcast_totals_def
  using fold_update_nth [of "\<lambda>w. True" "\<lambda>w. wls ! w" 32 smem j]
  by simp_all

lemma scan_totals_nth:
  assumes "l < 32"
  shows "scan_totals smem ! l = smem ! 0 + (\<Sum>u < l + 1. smem ! (u + 1))"
proof -
  let ?f = "\<lambda>lane. smem ! (lane + 1) + smem ! 0 * (if lane = 0 then 1 else 0)"
  have "scan_totals smem ! l = sum ((!) (map ?f [0..<32])) {..<l + 1}"
    unfolding scan_totals_def using assms by (intro prefix_sum_warp_scan) simp_all
  also have "\<dots> = (\<Sum>u < l + 1. ?f u)"
    using assms by (intro sum.cong) auto
  also have "\<dots> = (\<Sum>u < l + 1. smem ! (u + 1)) + (\<Sum>u < l + 1. smem ! 0 * (if u = 0 then 1 else 0))"
    by (rule sum.distrib)
  also have "(\<Sum>u < l + 1. smem ! 0 * (if u = 0 then 1 else 0)) = smem ! 0"
    by (simp add: sum.lessThan_Suc_shift del: sum.lessThan_Suc)
  finally show ?thesis by simp
qed

lemma sum_blocks:
  "(\<Sum>u < w. \<Sum>j < 32. f (32 * u + j)) = (\<Sum>j < 32 * w. f (j::nat) :: nat)"
proof (induction w)
  case 0
  show ?case by simp
next
  case (Suc w)
  have "(\<Sum>j < 32 * Suc w. f j) = (\<Sum>j < 32 * w. f j) + sum f {32 * w..<32 * w + 32}"
    using sum.atLeastLessThan_concat [of 0 "32 * w" "32 * w + 32" f]
    by (simp add: atLeast0LessThan add.commute)
  also have "sum f {32 * w..<32 * w + 32} = (\<Sum>j < 32. f (32 * w + j))"
    using sum.shift_bounds_nat_ivl [of f 0 "32 * w" 32]
    by (simp add: atLeast0LessThan add.commute)
  finally show ?case using Suc by simp
qed

lemma psum_add: "psum a b + (\<Sum>j < m. a ! (b + j)) = psum a (b + m)"
proof -
  have "sum ((!) a) {b..<b + m} = (\<Sum>j < m. a ! (b + j))"
    using sum.shift_bounds_nat_ivl [of "(!) a" 0 b m]
    by (simp add: atLeast0LessThan add.commute)
  then show ?thesis
    using sum.atLeastLessThan_concat [of 0 b "b + m" "(!) a"]
    by (simp add: psum_def atLeast0LessThan)
qed


lemma chunk_pass_scanned:
  assumes inv: "scanned H a0 c0 c s" and c: "1024 * c < H"
    and la: "H \<le> length a0" and lc: "H \<le> length c0"
    and fresh_reads: "\<And>w. \<not> stale_read H late c w"
  shows "\<exists>s'. chunk_pass H late s c = Some s' \<and> scanned H a0 c0 (Suc c) s'"
proof -
  obtain arr copy smem where s: "s = (arr, copy, smem)" by (cases s) auto
  define base where "base = 1024 * c"
  define smem1 where "smem1 = stage_totals H arr base smem"
  define wls where "wls = scan_totals smem1"
  define smem2 where "smem2 = broadcast_totals wls smem1"
  define my_val where "my_val = (\<lambda>i. warp_scan arr base ((i - base) div 32) ! ((i - base) mod 32)
      + smem2 ! ((i - base) div 32))"
  define written where "written = (\<lambda>i. base \<le> i \<and> i < base + 1024 \<and> i < H)"
  from inv s have len: "length arr = length a0" "length copy = length c0" "length smem = 33"
    and arr: "\<And>i. i < length a0 \<Longrightarrow>
        arr ! i = (if i < H \<and> i < 1024 * c then psum a0 (i + 1) else a0 ! i)"
    and cpy: "\<And>i. i < H \<Longrightarrow> i < 1024 * c \<Longrightarrow> copy ! i = psum a0 (i + 1)"
    and carry: "smem ! 0 = psum a0 base"
    using c by (simp_all add: scanned_def base_def)
  have fresh: "arr ! (base + j) = a0 ! (base + j)" if "base + j < H" for j
    using arr [of "base + j"] that la by (simp add: base_def)
  have l1: "length smem1 = 33" by (simp add: smem1_def stage_totals_nth len)
  have l2: "length smem2 = 33" by (simp add: smem2_def broadcast_totals_nth l1)
  have s10: "smem1 ! 0 = psum a0 base"
    by (simp add: smem1_def stage_totals_nth len carry)
  have tot: "smem1 ! (u + 1) = (\<Sum>j < 32. a0 ! (base + (32 * u + j)))"
    if "u < 32" "base + 32 * u + 31 < H" for u
  proof -
    have "smem1 ! (u + 1) = warp_scan arr base u ! 31"
      using that by (simp add: smem1_def stage_totals_nth len)
    also have "\<dots> = (\<Sum>j < 32. arr ! (base + 32 * u + j))"
      by (simp add: warp_scan_nth)
    also have "\<dots> = (\<Sum>j < 32. a0 ! (base + (32 * u + j)))"
      using that fresh [of "32 * u + _"] by (intro sum.cong) (auto simp: add.assoc)
    finally show ?thesis .
  qed
  have wl: "wls ! w = psum a0 (base + 32 * (w + 1))" if "w < 32" "base + 32 * w + 31 < H" for w
  proof -
    have "wls ! w = smem1 ! 0 + (\<Sum>u < w + 1. smem1 ! (u + 1))"
      using that by (simp add: wls_def scan_totals_nth)
    also have "(\<Sum>u < w + 1. smem1 ! (u + 1)) = (\<Sum>u < w + 1. \<Sum>j < 32. a0 ! (base + (32 * u + j)))"
      using that by (intro sum.cong refl tot) auto
    also have "\<dots> = (\<Sum>j < 32 * (w + 1). a0 ! (base + j))"
      by (rule sum_blocks)
    finally show ?thesis by (simp only: s10 psum_add)
  qed
  have off: "smem2 ! w = psum a0 (base + 32 * w)" if "w < 32" "base + 32 * w < H" for w
  proof (cases w)
    case 0
    then show ?thesis by (simp add: smem2_def broadcast_totals_nth l1 s10)
  next
    case (Suc v)
    then have "smem2 ! w = wls ! v"
      using that by (simp add: smem2_def broadcast_totals_nth l1)
    also have "\<dots> = psum a0 (base + 32 * (v + 1))"
      using that Suc by (intro wl) simp_all
    finally show ?thesis using Suc by simp
  qed
  have val: "my_val i = psum a0 (i + 1)" if "written i" for i
  proof -
    define w where "w = (i - base) div 32"
    define l where "l = (i - base) mod 32"
    from that have i: "base \<le> i" "i < base + 1024" "i < H" by (simp_all add: written_def)
    then have w: "w < 32" and l: "l < 32" and eq: "i = base + 32 * w + l"
      by (auto simp: w_def l_def)
    have "warp_scan arr base w ! l = (\<Sum>j < l + 1. arr ! (base + 32 * w + j))"
      using l by (rule warp_scan_nth)
    also have "\<dots> = (\<Sum>j < l + 1. a0 ! (base + 32 * w + j))"
      using i eq fresh [of "32 * w + _"] by (intro sum.cong) (auto simp: add.assoc)
    finally have ws: "warp_scan arr base w ! l = (\<Sum>j < l + 1. a0 ! (base + 32 * w + j))" .
    have "base + 32 * w < H" using i eq by simp
    from off [OF w this] have o: "smem2 ! w = psum a0 (base + 32 * w)" .
    have "my_val i = warp_scan arr base w ! l + smem2 ! w"
      by (simp only: my_val_def w_def l_def)
    also have "\<dots> = psum a0 (base + 32 * w) + (\<Sum>j < l + 1. a0 ! (base + 32 * w + j))"
      by (simp only: ws o add.commute)
    also have "\<dots> = psum a0 (base + 32 * w + (l + 1))" by (rule psum_add)
    finally show ?thesis using eq by simp
  qed
  let ?arr' = "map (\<lambda>i. if written i then my_val i else arr ! i) [0..<length arr]"
  let ?copy' = "map (\<lambda>i. if written i then my_val i else copy ! i) [0..<length copy]"
  let ?smem' = "smem2[0 := wls ! 31]"
  have run: "chunk_pass H late s c = Some (?arr', ?copy', ?smem')"
    using la lc len
    by (simp add: chunk_pass_def s Let_def base_def smem1_def wls_def smem2_def my_val_def
        written_def fresh_reads)
  have wr: "written i \<longleftrightarrow> i < H \<and> i < 1024 * Suc c \<and> \<not> i < 1024 * c" for i
    by (auto simp: written_def base_def)
  have "scanned H a0 c0 (Suc c) (?arr', ?copy', ?smem')"
    unfolding scanned_def prod.case
  proof (intro conjI allI impI)
    show "length ?arr' = length a0" by (simp add: len)
    show "length ?copy' = length c0" by (simp add: len)
    show "length ?smem' = 33" by (simp add: l2)
  next
    fix i assume "i < length a0"
    then show "?arr' ! i = (if i < H \<and> i < 1024 * Suc c then psum a0 (i + 1) else a0 ! i)"
      using val [of i] arr [of i] wr [of i] len by (cases "written i") auto
  next
    fix i assume "i < H \<and> i < 1024 * Suc c"
    then show "?copy' ! i = psum a0 (i + 1)"
      using val [of i] cpy [of i] wr [of i] len lc by (cases "written i") auto
  next
    assume "1024 * Suc c \<le> H"
    then have "wls ! 31 = psum a0 (base + 32 * (31 + 1))"
      by (intro wl) (simp_all add: base_def)
    then show "?smem' ! 0 = psum a0 (1024 * Suc c)"
      using l2 by (simp add: base_def add.commute)
  qed
  with run show ?thesis by blast
qed

lemma run_chunks_scanned:
  assumes "scanned H a0 c0 0 s" "H \<le> length a0" "H \<le> length c0" "1024 * m < H + 1024"
    and fresh_reads: "\<And>c w. \<not> stale_read H late c w"
  shows "\<exists>s'. run_warps (chunk_pass H late) [0..<m] s = Some s' \<and> scanned H a0 c0 m s'"
  using assms(4)
proof (induction m)
  case 0
  then show ?case using assms(1) by simp
next
  case (Suc m)
  then obtain s1 where s1: "run_warps (chunk_pass H late) [0..<m] s = Some s1" "scanned H a0 c0 m s1"
    by auto
  from Suc.prems have "1024 * m < H" by simp
  from chunk_pass_scanned [OF s1(2) this assms(2,3) fresh_reads]
  obtain s2 where "chunk_pass H late s1 m = Some s2" "scanned H a0 c0 (Suc m) s2" by blast
  with s1 have "run_warps (chunk_pass H late) [0..<Suc m] s = Some s2"
    by (simp only: run_warps_upt_Suc) simp
  with \<open>scanned H a0 c0 (Suc m) s2\<close> show ?case by blast
qed


lemma psum_take: "i \<le> length a \<Longrightarrow> psum a i = sum_list (take i a)"
  by (simp add: psum_def sum_list_sum_nth atLeast0LessThan)

lemma fused_prefix_sum_copy_scanned:
  assumes "popc_is_1 H" "32 \<le> H" "length smem = 33" "H \<le> length arr" "H \<le> length copy"
    and fresh_reads: "\<And>c w. \<not> stale_read H late c w"
  shows "\<exists>arr' copy'. fused_prefix_sum_copy H late smem (arr, copy) = Some (arr', copy') \<and>
           length arr' = length arr \<and> length copy' = length copy \<and>
           (\<forall>i < H. arr' ! i = psum arr (i + 1) \<and> copy' ! i = psum arr (i + 1)) \<and>
           (\<forall>i < length arr. H \<le> i \<longrightarrow> arr' ! i = arr ! i)"
proof -
  let ?m = "(H + 1023) div 1024"
  have m: "1024 * ?m < H + 1024" "H \<le> 1024 * ?m" by simp_all
  have "scanned H arr copy 0 (arr, copy, smem[0 := 0])"
    using assms(3) by (simp add: scanned_def psum_def)
  from run_chunks_scanned [OF this assms(4,5) m(1) fresh_reads]
  obtain arr' copy' smem' where
    run: "run_warps (chunk_pass H late) [0..<?m] (arr, copy, smem[0 := 0]) = Some (arr', copy', smem')"
    and inv: "scanned H arr copy ?m (arr', copy', smem')"
    by (metis prod_cases3)
  from inv have len: "length arr' = length arr" "length copy' = length copy"
    and a: "\<And>i. i < length arr \<Longrightarrow>
        arr' ! i = (if i < H \<and> i < 1024 * ?m then psum arr (i + 1) else arr ! i)"
    and c: "\<And>i. i < H \<Longrightarrow> i < 1024 * ?m \<Longrightarrow> copy' ! i = psum arr (i + 1)"
    by (simp_all add: scanned_def)
  have "arr' ! i = psum arr (i + 1) \<and> copy' ! i = psum arr (i + 1)" if "i < H" for i
    using a [of i] c [of i] that m(2) assms(4) by simp
  moreover have "arr' ! i = arr ! i" if "i < length arr" "H \<le> i" for i
    using a [of i] that by simp
  moreover have "fused_prefix_sum_copy H late smem (arr, copy) = Some (arr', copy')"
    using assms(1-3) run by (simp add: fused_prefix_sum_copy_def)
  ultimately show ?thesis using len by blast
qed

text \<open>
  When no read of the staging cells is stale, which is the case of every schedule for
  \<open>H \<le> 1024\<close> (the loop then has one pass) and of the schedule in which the block runs
  converged, the prefix-sum step of \<^verbatim>\<open>C_and_Q\<close> returns, whatever the shared array held
  before; the offset table has \<open>H + 1\<close> cells, starts at 0, ends at \<open>n\<close>, never
  decreases, and holds at \<open>i\<close> the sum of the first \<open>i\<close> counters; the cursors of the
  bucket sort are a copy of it.
\<close>

lemma C_and_Q_offsets_fresh_reads:
  assumes "popc_is_1 H" "32 \<le> H" "length smem = 33" "length dH_psum = H + 1"
    and "sum_list (take H dH_psum) = n"
    and fresh_reads: "H \<le> 1024 \<or> (\<forall>c w. \<not> late c w)"
  shows "\<exists>offset. C_and_Q_offsets H late smem dH_psum = Some (offset, offset) \<and>
           length offset = H + 1 \<and> offset ! 0 = 0 \<and> offset ! H = n \<and>
           (\<forall>i < H. offset ! i \<le> offset ! (i + 1)) \<and>
           (\<forall>i \<le> H. offset ! i = sum_list (take i dH_psum))"
proof -
  have fr: "\<not> stale_read H late c w" for c w
    using fresh_reads by (auto simp: stale_read_def)
  from fused_prefix_sum_copy_scanned [OF assms(1-3), of dH_psum "replicate (H + 1) 0" late]
    assms(4) fr
  obtain arr' copy' where
    run: "fused_prefix_sum_copy H late smem (dH_psum, replicate (H + 1) 0) = Some (arr', copy')"
    and len: "length arr' = H + 1" "length copy' = H + 1"
    and c: "\<And>i. i < H \<Longrightarrow> copy' ! i = psum dH_psum (i + 1)"
    by auto
  let ?offset = "0 # take H copy'"
  have res: "C_and_Q_offsets H late smem dH_psum = Some (?offset, ?offset)"
    using run len by (simp add: C_and_Q_offsets_def)
  have nth: "?offset ! i = sum_list (take i dH_psum)" if "i \<le> H" for i
  proof (cases i)
    case 0
    then show ?thesis by simp
  next
    case (Suc j)
    then have "?offset ! i = copy' ! j" using that len by simp
    also have "\<dots> = psum dH_psum (j + 1)" using that Suc by (intro c) simp
    also have "\<dots> = sum_list (take i dH_psum)"
      using that Suc assms(4) by (simp add: psum_take)
    finally show ?thesis .
  qed
  have mono: "?offset ! i \<le> ?offset ! (i + 1)" if "i < H" for i
  proof -
    have "psum dH_psum i \<le> psum dH_psum (i + 1)" by (simp add: psum_def)
    then show ?thesis
      using nth [of i] nth [of "i + 1"] that assms(4) by (simp add: psum_take)
  qed
  have "length ?offset = H + 1" using len by simp
  moreover have "?offset ! 0 = 0" by simp
  moreover have "?offset ! H = n" using nth [of H] assms(5) by simp
  ultimately show ?thesis using res nth mono by blast
qed

lemma chunk_pass_copy:
  assumes "H \<le> length arr" "H \<le> length copy"
  shows "\<exists>arr' copy' smem'. chunk_pass H late (arr, copy, smem) c = Some (arr', copy', smem') \<and>
     length arr' = length arr \<and> length copy' = length copy \<and>
     (\<forall>i < length arr. \<not> (1024 * c \<le> i \<and> i < 1024 * c + 1024) \<longrightarrow> arr' ! i = arr ! i) \<and>
     (\<forall>i < length copy. copy' ! i =
        (if 1024 * c \<le> i \<and> i < 1024 * c + 1024 \<and> i < H then
           warp_scan arr (1024 * c) ((i - 1024 * c) div 32) ! ((i - 1024 * c) mod 32) +
           (if stale_read H late c ((i - 1024 * c) div 32)
            then warp_scan arr (1024 * c + 1024) ((i - 1024 * c) div 32 - 1) ! 31
            else broadcast_totals (scan_totals (stage_totals H arr (1024 * c) smem))
                   (stage_totals H arr (1024 * c) smem) ! ((i - 1024 * c) div 32))
         else copy ! i))"
  using assms by (simp add: chunk_pass_def Let_def)

lemma ex_counts_2048_nth:
  "j < 2049 \<Longrightarrow> ex_counts_2048 ! j = (if j < 1024 then 1 else 0)"
  by (simp add: ex_counts_2048_def nth_append)

lemma ex_counts_2048_length: "length ex_counts_2048 = 2049"
  by (simp add: ex_counts_2048_def)

lemma popc_2048: "popc_is_1 2048"
  unfolding popc_is_1_def list_ex_iff by (rule bexI [of _ 11]) simp_all

lemma ex_stale_offsets:
  "\<exists>offset. C_and_Q_offsets 2048 ex_late (replicate 33 0) ex_counts_2048 = Some (offset, offset) \<and>
     offset ! 32 = 32 \<and> offset ! 33 = 1"
proof -
  let ?a0 = ex_counts_2048 and ?c0 = "replicate 2049 (0::nat)"
  let ?s0 = "(replicate 33 (0::nat))[0 := 0]"
  have l0: "2048 \<le> length ?a0" "2048 \<le> length ?c0" by (simp_all add: ex_counts_2048_length)
  from chunk_pass_copy [OF l0, of ex_late ?s0 0] obtain a1 c1 s1 where
    p0: "chunk_pass 2048 ex_late (?a0, ?c0, ?s0) 0 = Some (a1, c1, s1)"
    and l1: "length a1 = 2049" "length c1 = 2049"
    and v1: "\<forall>i < 2049. c1 ! i =
        (if 1024 * 0 \<le> i \<and> i < 1024 * 0 + 1024 \<and> i < 2048 then
           warp_scan ?a0 (1024 * 0) ((i - 1024 * 0) div 32) ! ((i - 1024 * 0) mod 32) +
           (if stale_read 2048 ex_late 0 ((i - 1024 * 0) div 32)
            then warp_scan ?a0 (1024 * 0 + 1024) ((i - 1024 * 0) div 32 - 1) ! 31
            else broadcast_totals (scan_totals (stage_totals 2048 ?a0 (1024 * 0) ?s0))
                   (stage_totals 2048 ?a0 (1024 * 0) ?s0) ! ((i - 1024 * 0) div 32))
         else ?c0 ! i)"
    by (auto simp: ex_counts_2048_length)
  have ones: "(\<Sum>j < 32. ?a0 ! (0 + 32 * 0 + j)) = 32"
  proof -
    have "(\<Sum>j < 32. ?a0 ! (0 + 32 * 0 + j)) = (\<Sum>j < (32::nat). 1)"
      by (intro sum.cong refl) (simp add: ex_counts_2048_nth)
    then show ?thesis by simp
  qed
  have zeros: "(\<Sum>j < 32. ?a0 ! (1024 + 32 * 0 + j)) = 0"
    by (simp add: ex_counts_2048_nth)
  have w0: "warp_scan ?a0 0 0 ! 31 = 32"
    using warp_scan_nth [of 31 ?a0 0 0] ones by simp
  have w1: "warp_scan ?a0 0 1 ! 0 = 1"
    using warp_scan_nth [of 0 ?a0 0 1] by (simp add: ex_counts_2048_nth)
  have wn: "warp_scan ?a0 1024 0 ! 31 = 0"
    using warp_scan_nth [of 31 ?a0 1024 0] zeros by simp
  have st0: "\<not> stale_read 2048 ex_late 0 0" "stale_read 2048 ex_late 0 1"
    by (simp_all add: stale_read_def ex_late_def)
  have b0: "broadcast_totals (scan_totals (stage_totals 2048 ?a0 0 ?s0)) (stage_totals 2048 ?a0 0 ?s0) ! 0 = 0"
    by (simp add: broadcast_totals_nth stage_totals_nth)
  have c31: "c1 ! 31 = 32" using v1 [rule_format, of 31] w0 st0 b0 by simp
  have c32: "c1 ! 32 = 1" using v1 [rule_format, of 32] w1 wn st0 by simp
  have l1': "2048 \<le> length a1" "2048 \<le> length c1" using l1 by simp_all
  from chunk_pass_copy [OF l1', of ex_late s1 1] obtain a2 c2 s2 where
    p1: "chunk_pass 2048 ex_late (a1, c1, s1) 1 = Some (a2, c2, s2)"
    and l2: "length a2 = 2049" "length c2 = 2049"
    and v2: "\<forall>i < 2049. c2 ! i =
        (if 1024 * 1 \<le> i \<and> i < 1024 * 1 + 1024 \<and> i < 2048 then
           warp_scan a1 (1024 * 1) ((i - 1024 * 1) div 32) ! ((i - 1024 * 1) mod 32) +
           (if stale_read 2048 ex_late 1 ((i - 1024 * 1) div 32)
            then warp_scan a1 (1024 * 1 + 1024) ((i - 1024 * 1) div 32 - 1) ! 31
            else broadcast_totals (scan_totals (stage_totals 2048 a1 (1024 * 1) s1))
                   (stage_totals 2048 a1 (1024 * 1) s1) ! ((i - 1024 * 1) div 32))
         else c1 ! i)"
    using l1 by auto
  have d31: "c2 ! 31 = 32" using v2 [rule_format, of 31] c31 by simp
  have d32: "c2 ! 32 = 1" using v2 [rule_format, of 32] c32 by simp
  have run: "run_warps (chunk_pass 2048 ex_late) [0..<(2048 + 1023) div 1024] (?a0, ?c0, ?s0) =
      Some (a2, c2, s2)"
    using p0 p1 by (simp add: upt_2)
  have f: "fused_prefix_sum_copy 2048 ex_late (replicate 33 0) (?a0, replicate (2048 + 1) 0) = Some (a2, c2)"
    using run popc_2048 by (simp add: fused_prefix_sum_copy_def)
  have "C_and_Q_offsets 2048 ex_late (replicate 33 0) ?a0 = Some (0 # take 2048 c2, 0 # take 2048 c2)"
    using f l2 by (simp add: C_and_Q_offsets_def)
  moreover have "(0 # take 2048 c2) ! 32 = 32" "(0 # take 2048 c2) ! 33 = 1"
    using d31 d32 by simp_all
  ultimately show ?thesis by blast
qed

text \<open>
  C7. The claim asks for a monotone offset table for every power of two \<open>H \<ge> 32\<close>. The
  kernel does not deliver it for \<open>H = 2048\<close>: with one point in each of the first 1024
  hubs (\<open>n = 1024\<close>) and the schedule in which warp 1 reads \<^verbatim>\<open>smem[1]\<close> at the end of the
  first pass after warp 0 has stored there its total of the second chunk, the step
  returns a table with \<open>offset[32] = 32\<close> and \<open>offset[33] = 1\<close>, where the sum of the first
  33 counters is 33.
\<close>

theorem C_and_Q_offsets_stale_read:
  "popc_is_1 2048 \<and> length ex_counts_2048 = 2048 + 1 \<and>
   sum_list (take 2048 ex_counts_2048) = 1024 \<and> sum_list (take 33 ex_counts_2048) = 33 \<and>
   offset_at (C_and_Q_offsets 2048 ex_late (replicate 33 0) ex_counts_2048) 32 = Some 32 \<and>
   offset_at (C_and_Q_offsets 2048 ex_late (replicate 33 0) ex_counts_2048) 33 = Some 1"
proof -
  have "sum_list (take 2048 ex_counts_2048) = 1024" "sum_list (take 33 ex_counts_2048) = 33"
    by (simp_all add: ex_counts_2048_def sum_list_replicate)
  moreover from ex_stale_offsets
  have "offset_at (C_and_Q_offsets 2048 ex_late (replicate 33 0) ex_counts_2048) 32 = Some 32"
    "offset_at (C_and_Q_offsets 2048 ex_late (replicate 33 0) ex_counts_2048) 33 = Some 1"
    by (auto simp: offset_at_def)
  ultimately show ?thesis using popc_2048 ex_counts_2048_length by simp
qed

subsection \<open>The sorting network\<close>

lemma bitonic01_I:
  "a \<le> b \<Longrightarrow> b \<le> n \<Longrightarrow> (\<And>i. i < n \<Longrightarrow> s (lo + i) \<longleftrightarrow> a \<le> i \<and> i < b) \<Longrightarrow> bitonic01 s lo n"
  unfolding bitonic01_def by blast

lemma bitonic01_I':
  "a \<le> b \<Longrightarrow> b \<le> n \<Longrightarrow> (\<And>i. i < n \<Longrightarrow> s (lo + i) \<longleftrightarrow> \<not> (a \<le> i \<and> i < b)) \<Longrightarrow> bitonic01 s lo n"
  unfolding bitonic01_def by blast

lemma bitonic01_all0: "(\<And>i. i < n \<Longrightarrow> \<not> s (lo + i)) \<Longrightarrow> bitonic01 s lo n"
  by (rule bitonic01_I [of 0 0]) auto

lemma bitonic01_all1: "(\<And>i. i < n \<Longrightarrow> s (lo + i)) \<Longrightarrow> bitonic01 s lo n"
  by (rule bitonic01_I' [of 0 0]) auto

lemma half_clean:
  assumes bit: "bitonic01 s lo (2 * h)"
    and L: "\<And>i. i < h \<Longrightarrow> s' (lo + i) \<longleftrightarrow> s (lo + i) \<and> s (lo + h + i)"
    and U: "\<And>i. i < h \<Longrightarrow> s' (lo + h + i) \<longleftrightarrow> s (lo + i) \<or> s (lo + h + i)"
  shows "bitonic01 s' lo h \<and> bitonic01 s' (lo + h) h \<and>
         ((\<forall>i < h. \<not> s' (lo + i)) \<or> (\<forall>i < h. s' (lo + h + i)))"
proof -
  from bit obtain a b where ab: "a \<le> b" "b \<le> 2 * h"
    and s: "(\<forall>i < 2 * h. s (lo + i) \<longleftrightarrow> a \<le> i \<and> i < b) \<or>
            (\<forall>i < 2 * h. s (lo + i) \<longleftrightarrow> \<not> (a \<le> i \<and> i < b))"
    unfolding bitonic01_def by blast
  have up: "lo + h + i = lo + (h + i)" for i by simp
  from s show ?thesis
  proof
    assume s: "\<forall>i < 2 * h. s (lo + i) \<longleftrightarrow> a \<le> i \<and> i < b"
    then have lo: "\<And>i. i < h \<Longrightarrow> s (lo + i) \<longleftrightarrow> a \<le> i \<and> i < b"
      and hi: "\<And>i. i < h \<Longrightarrow> s (lo + h + i) \<longleftrightarrow> a \<le> h + i \<and> h + i < b"
      by (simp_all add: up)
    have l: "s' (lo + i) \<longleftrightarrow> (a \<le> i \<and> i < b) \<and> (a \<le> h + i \<and> h + i < b)" if "i < h" for i
      using L [OF that] lo [OF that] hi [OF that] by simp
    have u: "s' (lo + h + i) \<longleftrightarrow> (a \<le> i \<and> i < b) \<or> (a \<le> h + i \<and> h + i < b)" if "i < h" for i
      using U [OF that] lo [OF that] hi [OF that] by simp
    consider "b \<le> h" | "h \<le> a" | "a < h" "h < b" "b - h \<le> a" | "a < h" "h < b" "a < b - h"
      by linarith
    then show ?thesis
    proof cases
      case 1
      have z: "\<not> s' (lo + i)" if "i < h" for i using l [OF that] 1 that by simp
      have "bitonic01 s' (lo + h) h"
        using ab 1 by (intro bitonic01_I [of a b]) (auto simp: u)
      with z show ?thesis by (simp add: bitonic01_all0)
    next
      case 2
      have z: "\<not> s' (lo + i)" if "i < h" for i using l [OF that] 2 that by simp
      have "bitonic01 s' (lo + h) h"
        using ab 2 by (intro bitonic01_I [of "a - h" "b - h"]) (auto simp: u)
      with z show ?thesis by (simp add: bitonic01_all0)
    next
      case 3
      have z: "\<not> s' (lo + i)" if "i < h" for i using l [OF that] 3 that by auto
      have "bitonic01 s' (lo + h) h"
        using ab 3 by (intro bitonic01_I' [of "b - h" a]) (auto simp: u)
      with z show ?thesis by (simp add: bitonic01_all0)
    next
      case 4
      have o: "s' (lo + h + i)" if "i < h" for i using u [OF that] 4 that by auto
      have "bitonic01 s' lo h"
        using ab 4 by (intro bitonic01_I [of a "b - h"]) (auto simp: l)
      with o show ?thesis by (simp add: bitonic01_all1)
    qed
  next
    assume s: "\<forall>i < 2 * h. s (lo + i) \<longleftrightarrow> \<not> (a \<le> i \<and> i < b)"
    then have lo: "\<And>i. i < h \<Longrightarrow> s (lo + i) \<longleftrightarrow> \<not> (a \<le> i \<and> i < b)"
      and hi: "\<And>i. i < h \<Longrightarrow> s (lo + h + i) \<longleftrightarrow> \<not> (a \<le> h + i \<and> h + i < b)"
      by (simp_all add: up)
    have l: "s' (lo + i) \<longleftrightarrow> \<not> (a \<le> i \<and> i < b) \<and> \<not> (a \<le> h + i \<and> h + i < b)" if "i < h" for i
      using L [OF that] lo [OF that] hi [OF that] by simp
    have u: "s' (lo + h + i) \<longleftrightarrow> \<not> (a \<le> i \<and> i < b) \<or> \<not> (a \<le> h + i \<and> h + i < b)" if "i < h" for i
      using U [OF that] lo [OF that] hi [OF that] by simp
    consider "b \<le> h" | "h \<le> a" | "a < h" "h < b" "b - h \<le> a" | "a < h" "h < b" "a < b - h"
      by linarith
    then show ?thesis
    proof cases
      case 1
      have o: "s' (lo + h + i)" if "i < h" for i using u [OF that] 1 that by auto
      have "bitonic01 s' lo h"
        using ab 1 by (intro bitonic01_I' [of a b]) (auto simp: l)
      with o show ?thesis by (simp add: bitonic01_all1)
    next
      case 2
      have o: "s' (lo + h + i)" if "i < h" for i using u [OF that] 2 that by auto
      have "bitonic01 s' lo h"
        using ab 2 by (intro bitonic01_I' [of "a - h" "b - h"]) (auto simp: l)
      with o show ?thesis by (simp add: bitonic01_all1)
    next
      case 3
      have o: "s' (lo + h + i)" if "i < h" for i using u [OF that] 3 that by auto
      have "bitonic01 s' lo h"
        using ab 3 by (intro bitonic01_I [of "b - h" a]) (auto simp: l)
      with o show ?thesis by (simp add: bitonic01_all1)
    next
      case 4
      have z: "\<not> s' (lo + i)" if "i < h" for i using l [OF that] 4 that by auto
      have "bitonic01 s' (lo + h) h"
        using ab 4 by (intro bitonic01_I' [of a "b - h"]) (auto simp: u)
      with z show ?thesis by (simp add: bitonic01_all0)
    qed
  qed
qed

lemma staged_step:
  assumes st: "staged s n (2 * h)" and hc: "half_cleaned s s' n h"
  shows "staged s' (2 * n) h"
proof -
  from st have bit: "\<And>b. b < n \<Longrightarrow> bitonic01 s (b * (2 * h)) (2 * h)"
    and cross: "\<And>b1 b2 r1 r2. b1 < b2 \<Longrightarrow> b2 < n \<Longrightarrow> r1 < 2 * h \<Longrightarrow> r2 < 2 * h \<Longrightarrow>
        s (b1 * (2 * h) + r1) \<Longrightarrow> s (b2 * (2 * h) + r2)"
    unfolding staged_def by blast+
  from hc have L: "\<And>b r. b < n \<Longrightarrow> r < h \<Longrightarrow>
        s' (b * (2 * h) + r) \<longleftrightarrow> s (b * (2 * h) + r) \<and> s (b * (2 * h) + h + r)"
    and U: "\<And>b r. b < n \<Longrightarrow> r < h \<Longrightarrow>
        s' (b * (2 * h) + h + r) \<longleftrightarrow> s (b * (2 * h) + r) \<or> s (b * (2 * h) + h + r)"
    unfolding half_cleaned_def by blast+
  have halves: "bitonic01 s' (b * (2 * h)) h \<and> bitonic01 s' (b * (2 * h) + h) h \<and>
         ((\<forall>i < h. \<not> s' (b * (2 * h) + i)) \<or> (\<forall>i < h. s' (b * (2 * h) + h + i)))"
    if "b < n" for b
    using bit [OF that] L [OF that] U [OF that] by (rule half_clean)
  have p0: "c * h + r = b * (2 * h) + r" if "c = 2 * b + e" "e = 0" for c b e r
    using that by (simp add: algebra_simps)
  have p1: "c * h + r = b * (2 * h) + h + r" if "c = 2 * b + e" "e = 1" for c b e r
    using that by (simp add: algebra_simps)
  have q0: "c * h = b * (2 * h)" if "c = 2 * b + e" "e = 0" for c b e
    using that by (simp add: algebra_simps)
  have q1: "c * h = b * (2 * h) + h" if "c = 2 * b + e" "e = 1" for c b e
    using that by (simp add: algebra_simps)
  have split: "\<exists>b e. c = 2 * b + e \<and> e < 2 \<and> b < n" if "c < 2 * n" for c
    using that by (intro exI [of _ "c div 2"] exI [of _ "c mod 2"]) auto
  show ?thesis
    unfolding staged_def
  proof (intro conjI allI impI)
    fix c assume "c < 2 * n"
    from split [OF this] obtain b e where c: "c = 2 * b + e" "e < 2" "b < n" by blast
    then consider "e = 0" | "e = 1" by linarith
    then show "bitonic01 s' (c * h) h"
    proof cases
      case 1
      from halves [OF c(3)] show ?thesis unfolding q0 [OF c(1) 1] by blast
    next
      case 2
      from halves [OF c(3)] show ?thesis unfolding q1 [OF c(1) 2] by blast
    qed
  next
    fix c1 c2 r1 r2
    assume a: "c1 < c2 \<and> c2 < 2 * n \<and> r1 < h \<and> r2 < h" and t: "s' (c1 * h + r1)"
    then have "c1 < 2 * n" by simp
    from split [OF this] obtain b1 e1 where c1: "c1 = 2 * b1 + e1" "e1 < 2" "b1 < n" by blast
    from a split [of c2] obtain b2 e2 where c2: "c2 = 2 * b2 + e2" "e2 < 2" "b2 < n" by blast
    from a c1 c2 consider "b1 = b2" "e1 = 0" "e2 = 1" | "b1 < b2" by linarith
    then show "s' (c2 * h + r2)"
    proof cases
      case 1
      from t have "s' (b2 * (2 * h) + r1)" unfolding p0 [OF c1(1) 1(2)] 1(1) .
      with halves [OF c2(3)] a have "\<forall>i < h. s' (b2 * (2 * h) + h + i)" by blast
      with a show ?thesis unfolding p1 [OF c2(1) 1(3)] by blast
    next
      case 2
      have "\<exists>r < 2 * h. s (b1 * (2 * h) + r)"
      proof (cases "e1 = 0")
        case True
        from t have "s' (b1 * (2 * h) + r1)" unfolding p0 [OF c1(1) True] .
        with L [OF c1(3), of r1] a have "s (b1 * (2 * h) + r1)" by simp
        with a show ?thesis by (intro exI [of _ r1]) simp
      next
        case False
        with c1 have e1: "e1 = 1" by simp
        from t have "s' (b1 * (2 * h) + h + r1)" unfolding p1 [OF c1(1) e1] .
        with U [OF c1(3), of r1] a have "s (b1 * (2 * h) + r1) \<or> s (b1 * (2 * h) + (h + r1))"
          by (simp add: add.assoc)
        with a show ?thesis
          by (elim disjE) (intro exI [of _ r1], simp, intro exI [of _ "h + r1"], simp)
      qed
      then obtain r where r: "r < 2 * h" "s (b1 * (2 * h) + r)" by blast
      have all: "s (b2 * (2 * h) + r')" if "r' < 2 * h" for r'
        using cross [OF 2 c2(3) r(1) that r(2)] .
      have "s (b2 * (2 * h) + r2)" "s (b2 * (2 * h) + h + r2)"
        using all [of r2] all [of "h + r2"] a by (simp_all add: add.assoc)
      with L [OF c2(3), of r2] U [OF c2(3), of r2] a
      have fin: "s' (b2 * (2 * h) + r2)" "s' (b2 * (2 * h) + h + r2)" by simp_all
      show ?thesis
      proof (cases "e2 = 0")
        case True
        from fin(1) show ?thesis unfolding p0 [OF c2(1) True] .
      next
        case False
        with c2 have e2: "e2 = 1" by simp
        from fin(2) show ?thesis unfolding p1 [OF c2(1) e2] .
      qed
    qed
  qed
qed

lemma staged_sorted:
  assumes st: "staged s n L" and L: "0 < L"
    and some: "\<And>b. b < n \<Longrightarrow> \<exists>r < L. s' (b * L + r) \<Longrightarrow> \<exists>r < L. s (b * L + r)"
    and every: "\<And>b. b < n \<Longrightarrow> \<forall>r < L. s (b * L + r) \<Longrightarrow> \<forall>r < L. s' (b * L + r)"
    and within: "\<And>b r1 r2. b < n \<Longrightarrow> r1 \<le> r2 \<Longrightarrow> r2 < L \<Longrightarrow> s' (b * L + r1) \<Longrightarrow> s' (b * L + r2)"
    and ij: "i \<le> j" "j < n * L" "s' i"
  shows "s' j"
proof -
  define b1 r1 b2 r2 where "b1 = i div L" and "r1 = i mod L" and "b2 = j div L" and "r2 = j mod L"
  have i: "i = b1 * L + r1" and j: "j = b2 * L + r2" by (simp_all add: b1_def r1_def b2_def r2_def)
  have r: "r1 < L" "r2 < L" using L by (simp_all add: r1_def r2_def)
  have b2: "b2 < n" using ij(2) L unfolding b2_def by (simp add: less_mult_imp_div_less)
  have le: "b1 \<le> b2" unfolding b1_def b2_def using ij(1) by (rule div_le_mono)
  show ?thesis
  proof (cases "b1 = b2")
    case True
    have "r1 \<le> r2" using ij(1) True unfolding i j by simp
    from within [OF b2 this r(2)] ij(3) True show ?thesis unfolding i j by simp
  next
    case False
    with le have lt: "b1 < b2" by simp
    then have b1: "b1 < n" using b2 by simp
    from some [OF b1] ij(3) r(1) obtain r where r0: "r < L" "s (b1 * L + r)"
      unfolding i by blast
    from st lt b2 r0 have "\<forall>r < L. s (b2 * L + r)" unfolding staged_def by blast
    from every [OF b2 this] r(2) show ?thesis unfolding j by blast
  qed
qed

lemma div_block: "r < h \<Longrightarrow> (q * h + r) div h = (q::nat)"
  by simp

lemma xor_low: 
  fixes b r k :: nat
  assumes "r < 2 ^ k"
  shows "(b * (2 * 2 ^ k) + r) XOR 2 ^ k = b * (2 * 2 ^ k) + 2 ^ k + r"
proof -
  let ?g = "b * (2 * 2 ^ k) + r"
  have eq: "?g = (2 * b) * 2 ^ k + r" by (simp add: algebra_simps)
  have "?g div 2 ^ k = 2 * b" unfolding eq by (rule div_block [OF assms])
  then have nb: "\<not> bit ?g k" by (simp add: bit_iff_odd)
  have "?g XOR 2 ^ k = flip_bit k ?g" by (simp add: flip_bit_eq_xor)
  also have "\<dots> = set_bit k ?g" using nb by (simp add: flip_bit_eq_if)
  also have "\<dots> = ?g + 2 ^ k" using nb by (simp add: set_bit_eq)
  finally show ?thesis by simp
qed

lemma xor_high: 
  fixes b r k :: nat
  assumes "r < 2 ^ k"
  shows "(b * (2 * 2 ^ k) + 2 ^ k + r) XOR 2 ^ k = b * (2 * 2 ^ k) + r"
proof -
  have "(b * (2 * 2 ^ k) + 2 ^ k + r) XOR 2 ^ k = ((b * (2 * 2 ^ k) + r) XOR 2 ^ k) XOR 2 ^ k"
    by (simp only: xor_low [OF assms])
  also have "\<dots> = b * (2 * 2 ^ k) + r"
    by (simp add: xor.assoc)
  finally show ?thesis .
qed

lemma and_pow2: 
  fixes g :: nat
  shows "g AND 2 ^ j = 0 \<longleftrightarrow> even (g div 2 ^ j)"
  by (simp add: and_exp_eq_0_iff_not_bit bit_iff_odd)

lemma in_block: "b < n \<Longrightarrow> y < X \<Longrightarrow> b * X + y < n * (X::nat)"
proof -
  assume "b < n" "y < X"
  then have "b * X + y < Suc b * X" by simp
  also have "\<dots> \<le> n * X" using \<open>b < n\<close> by (intro mult_le_mono1) simp
  finally show ?thesis .
qed

lemma halves_decomp:
  fixes g h n :: nat
  assumes "g < n * (2 * h)" "0 < h"
  obtains b r where "b < n" "r < h" "g = b * (2 * h) + r \<or> g = b * (2 * h) + h + r"
proof -
  let ?b = "g div (2 * h)" and ?r = "g mod (2 * h)"
  have b: "?b < n" using assms by (simp add: less_mult_imp_div_less)
  have g: "g = ?b * (2 * h) + ?r" by (rule div_mult_mod_eq [symmetric])
  have r: "?r < 2 * h" using assms by simp
  show ?thesis
  proof (cases "?r < h")
    case True
    with b g show ?thesis by (intro that [of ?b ?r]) auto
  next
    case False
    with r have "?r - h < h" by simp
    moreover have "g = ?b * (2 * h) + h + (?r - h)" using False g by simp
    ultimately show ?thesis using b by (intro that [of ?b "?r - h"]) auto
  qed
qed

lemma coop_bit_xor:
  fixes g :: nat
  assumes "k \<noteq> j"
  shows "(g XOR 2 ^ k) AND 2 ^ j = 0 \<longleftrightarrow> g AND 2 ^ j = 0"
  using assms by (simp add: and_exp_eq_0_iff_not_bit bit_xor_iff bit_exp_iff)

lemma xor_xor_same: "(g XOR s) XOR s = (g::nat)"
  by (simp add: xor.assoc)

lemma swaps_sym:
  assumes "k \<noteq> j"
  shows "swaps (2 ^ j) (2 ^ k) xs (g XOR 2 ^ k) \<longleftrightarrow> swaps (2 ^ j) (2 ^ k) xs g"
  unfolding swaps_def Let_def xor_xor_same coop_bit_xor [OF assms] by auto

lemma mset_involution:
  assumes inv: "\<And>g. g < length xs \<Longrightarrow> f g < length xs \<and> f (f g) = g"
  shows "mset (map (\<lambda>g. xs ! f g) [0..<length xs]) = mset xs"
proof -
  let ?A = "{0..<length xs}"
  have inj: "inj_on f ?A"
    by (rule inj_on_inverseI [of _ f]) (simp add: inv)
  have img: "f ` ?A = ?A"
  proof (intro equalityI subsetI)
    fix x assume "x \<in> f ` ?A"
    then show "x \<in> ?A" using inv by auto
  next
    fix x assume "x \<in> ?A"
    then have "f x \<in> ?A" "f (f x) = x" using inv by auto
    then show "x \<in> f ` ?A" by (metis imageI)
  qed
  have "mset (map (\<lambda>g. xs ! f g) [0..<length xs]) = image_mset ((!) xs) (image_mset f (mset [0..<length xs]))"
    by (simp add: multiset.map_comp comp_def)
  also have "image_mset f (mset [0..<length xs]) = mset_set (f ` ?A)"
    using inj by (simp add: image_mset_mset_set)
  also have "\<dots> = mset [0..<length xs]" by (simp add: img)
  also have "image_mset ((!) xs) (mset [0..<length xs]) = mset (map ((!) xs) [0..<length xs])"
    by simp
  also have "\<dots> = mset xs" by (simp only: map_nth)
  finally show ?thesis .
qed

lemma partner_in_range:
  assumes len: "length xs = n * (2 * 2 ^ k)" and g: "g < length xs"
  shows "g XOR 2 ^ k < length (xs::cell list)"
proof -
  from g len have "g < n * (2 * 2 ^ k)" by simp
  then obtain b r where br: "b < n" "r < (2::nat) ^ k"
    "g = b * (2 * 2 ^ k) + r \<or> g = b * (2 * 2 ^ k) + 2 ^ k + r"
    by (rule halves_decomp) simp
  from br(3) show ?thesis
  proof
    assume "g = b * (2 * 2 ^ k) + r"
    then have "g XOR 2 ^ k = b * (2 * 2 ^ k) + (2 ^ k + r)"
      using xor_low [OF br(2), of b] by simp
    also have "\<dots> < n * (2 * 2 ^ k)" using br by (intro in_block) simp_all
    finally show ?thesis using len by simp
  next
    assume "g = b * (2 * 2 ^ k) + 2 ^ k + r"
    then have "g XOR 2 ^ k = b * (2 * 2 ^ k) + r"
      using xor_high [OF br(2), of b] by simp
    also have "\<dots> < n * (2 * 2 ^ k)" using br by (intro in_block) simp_all
    finally show ?thesis using len by simp
  qed
qed

lemma merge_step_perm:
  assumes len: "length xs = n * (2 * 2 ^ k)" and kj: "k \<noteq> j"
  shows "\<exists>ys. merge_step (2 ^ j) (2 ^ k) xs = Some ys \<and> length ys = length xs \<and>
           mset ys = mset xs \<and>
           (\<forall>g < length xs. ys ! g =
              (if swaps (2 ^ j) (2 ^ k) xs g then xs ! (g XOR 2 ^ k) else xs ! g))"
proof -
  let ?f = "\<lambda>g. if swaps (2 ^ j) (2 ^ k) xs g then g XOR 2 ^ k else g"
  let ?ys = "map (\<lambda>g. xs ! ?f g) [0..<length xs]"
  have range: "list_all (\<lambda>g. g XOR 2 ^ k < length xs) [0..<length xs]"
    using partner_in_range [OF len] by (simp add: list_all_iff)
  have eq: "(\<lambda>g. if swaps (2 ^ j) (2 ^ k) xs g then xs ! (g XOR 2 ^ k) else xs ! g) = (\<lambda>g. xs ! ?f g)"
    by auto
  have run: "merge_step (2 ^ j) (2 ^ k) xs = Some ?ys"
    using range by (simp add: merge_step_def eq)
  have "?f g < length xs \<and> ?f (?f g) = g" if "g < length xs" for g
    using partner_in_range [OF len that] that swaps_sym [OF kj, of xs g]
    by (simp add: xor_xor_same)
  then have "mset ?ys = mset xs" by (rule mset_involution)
  moreover have "?ys ! g = (if swaps (2 ^ j) (2 ^ k) xs g then xs ! (g XOR 2 ^ k) else xs ! g)"
    if "g < length xs" for g
    using that by simp
  ultimately show ?thesis using run by (intro exI [of _ ?ys]) simp
qed

lemma merge_step_half_cleaned:
  assumes len: "length xs = n * (2 * 2 ^ k)" and kj: "k \<noteq> j"
    and run: "merge_step (2 ^ j) (2 ^ k) xs = Some ys"
  shows "half_cleaned (sig (2 ^ j) xs t) (sig (2 ^ j) ys t) n (2 ^ k)"
  unfolding half_cleaned_def
proof (intro allI impI)
  fix b r :: nat assume b: "b < n" and r: "r < 2 ^ k"
  let ?g = "b * (2 * 2 ^ k) + r" and ?p = "b * (2 * 2 ^ k) + 2 ^ k + r"
  from merge_step_perm [OF len kj] run
  have nth: "\<And>g. g < length xs \<Longrightarrow> ys ! g =
      (if swaps (2 ^ j) (2 ^ k) xs g then xs ! (g XOR 2 ^ k) else xs ! g)"
    by auto
  have g: "?g < length xs" unfolding len using b r by (intro in_block) simp_all
  have "b * (2 * 2 ^ k) + (2 ^ k + r) < n * (2 * 2 ^ k)" using b r by (intro in_block) simp_all
  then have p: "?p < length xs" unfolding len by (simp add: add.assoc)
  have xg: "?g XOR 2 ^ k = ?p" by (rule xor_low [OF r])
  have xp: "?p XOR 2 ^ k = ?g" by (rule xor_high [OF r])
  have dir: "?p AND 2 ^ j = 0 \<longleftrightarrow> ?g AND 2 ^ j = 0"
    using coop_bit_xor [OF kj, of ?g] by (simp only: xg)
  have lt: "?g < ?p" by simp
  have yg: "ys ! ?g = (if swaps (2 ^ j) (2 ^ k) xs ?g then xs ! ?p else xs ! ?g)"
    using nth [OF g] by (simp only: xg)
  have yp: "ys ! ?p = (if swaps (2 ^ j) (2 ^ k) xs ?p then xs ! ?g else xs ! ?p)"
    using nth [OF p] by (simp only: xp)
  have sg: "swaps (2 ^ j) (2 ^ k) xs ?g \<longleftrightarrow>
      (if ?g AND 2 ^ j = 0 then fst (xs ! ?p) < fst (xs ! ?g) else fst (xs ! ?p) > fst (xs ! ?g))"
    unfolding swaps_def Let_def xg using lt by auto
  have sp: "swaps (2 ^ j) (2 ^ k) xs ?p \<longleftrightarrow>
      (if ?g AND 2 ^ j = 0 then fst (xs ! ?g) > fst (xs ! ?p) else fst (xs ! ?g) < fst (xs ! ?p))"
    unfolding swaps_def Let_def xp dir using lt by auto
  show "(sig (2 ^ j) ys t ?g \<longleftrightarrow> sig (2 ^ j) xs t ?g \<and> sig (2 ^ j) xs t ?p) \<and>
        (sig (2 ^ j) ys t ?p \<longleftrightarrow> sig (2 ^ j) xs t ?g \<or> sig (2 ^ j) xs t ?p)"
    unfolding sig_def dir yg yp sg sp by auto
qed

lemma half_cleaned_shift:
  assumes hc: "half_cleaned s s' n h" and q: "q < Nq" and n: "n = Nq * m"
  shows "half_cleaned (\<lambda>i. s (q * (m * (2 * h)) + i)) (\<lambda>i. s' (q * (m * (2 * h)) + i)) m h"
  unfolding half_cleaned_def
proof (intro allI impI)
  fix b r assume b: "b < m" and r: "r < h"
  have "q * m + b < Nq * m" using q b by (rule in_block)
  then have c: "q * m + b < n" by (simp add: n)
  have e1: "q * (m * (2 * h)) + (b * (2 * h) + r) = (q * m + b) * (2 * h) + r"
    by (simp add: algebra_simps)
  have e2: "q * (m * (2 * h)) + (b * (2 * h) + h + r) = (q * m + b) * (2 * h) + h + r"
    by (simp add: algebra_simps)
  from hc c r show
    "(s' (q * (m * (2 * h)) + (b * (2 * h) + r)) \<longleftrightarrow>
        s (q * (m * (2 * h)) + (b * (2 * h) + r)) \<and> s (q * (m * (2 * h)) + (b * (2 * h) + h + r))) \<and>
     (s' (q * (m * (2 * h)) + (b * (2 * h) + h + r)) \<longleftrightarrow>
        s (q * (m * (2 * h)) + (b * (2 * h) + r)) \<or> s (q * (m * (2 * h)) + (b * (2 * h) + h + r)))"
    unfolding e1 e2 half_cleaned_def by blast
qed

lemma merge_step_staged:
  assumes coop: "coop = 2 ^ j" "k \<noteq> j" "coop = m * (2 * 2 ^ k)"
    and len: "length xs = Nq * coop"
    and st: "\<And>q t. q < Nq \<Longrightarrow> staged (\<lambda>i. sig coop xs t (q * coop + i)) m (2 * 2 ^ k)"
  shows "\<exists>ys. merge_step coop (2 ^ k) xs = Some ys \<and> length ys = length xs \<and> mset ys = mset xs \<and>
           (\<forall>q < Nq. \<forall>t. staged (\<lambda>i. sig coop ys t (q * coop + i)) (2 * m) (2 ^ k))"
proof -
  have len': "length xs = (Nq * m) * (2 * 2 ^ k)"
    unfolding len coop(3) by (simp only: mult.assoc)
  from merge_step_perm [OF len' coop(2)] obtain ys where
    ys: "merge_step (2 ^ j) (2 ^ k) xs = Some ys" "length ys = length xs" "mset ys = mset xs"
    by blast
  have "staged (\<lambda>i. sig coop ys t (q * coop + i)) (2 * m) (2 ^ k)" if q: "q < Nq" for q t
  proof -
    have "half_cleaned (sig (2 ^ j) xs t) (sig (2 ^ j) ys t) (Nq * m) (2 ^ k)"
      using len' coop(2) ys(1) by (rule merge_step_half_cleaned)
    from half_cleaned_shift [OF this q refl]
    have "half_cleaned (\<lambda>i. sig coop xs t (q * coop + i)) (\<lambda>i. sig coop ys t (q * coop + i)) m (2 ^ k)"
      unfolding coop(1) [symmetric] coop(3) [symmetric] .
    with st [OF q] show ?thesis by (rule staged_step)
  qed
  with ys show ?thesis unfolding coop(1) by blast
qed

lemma merge_strides_staged:
  assumes "5 \<le> k"
  shows "coop = 2 ^ j \<Longrightarrow> k < j \<Longrightarrow> coop = m * (2 * 2 ^ k) \<Longrightarrow> length xs = Nq * coop \<Longrightarrow>
     (\<And>q t. q < Nq \<Longrightarrow> staged (\<lambda>i. sig coop xs t (q * coop + i)) m (2 * 2 ^ k)) \<Longrightarrow>
     \<exists>ys. merge_strides coop (2 ^ k) xs = Some ys \<and> length ys = length xs \<and> mset ys = mset xs \<and>
       (\<forall>q < Nq. \<forall>t. staged (\<lambda>i. sig coop ys t (q * coop + i)) (coop div 32) 32)"
  using assms
proof (induction k arbitrary: m xs rule: nat_induct_at_least)
  case base
  from base have kj: "5 \<noteq> j" by simp
  from merge_step_staged [OF base(1) kj base(3,4,5)] obtain ys where
    ys: "merge_step coop (2 ^ 5) xs = Some ys" "length ys = length xs" "mset ys = mset xs"
    and st: "\<And>q t. q < Nq \<Longrightarrow> staged (\<lambda>i. sig coop ys t (q * coop + i)) (2 * m) (2 ^ 5)"
    by blast
  have "merge_strides coop 16 ys = Some ys"
    by (subst merge_strides.simps) (simp add: warp_size_def)
  with ys(1) have "merge_strides coop (2 ^ 5) xs = Some ys"
    by (subst merge_strides.simps) (simp add: warp_size_def)
  moreover have "coop div 32 = 2 * m" using base(3) by simp
  ultimately show ?case using ys(2,3) st by auto
next
  case (Suc k)
  from Suc.prems have kj: "Suc k \<noteq> j" by simp
  from merge_step_staged [OF Suc.prems(1) kj Suc.prems(3,4,5)] obtain ys where
    ys: "merge_step coop (2 ^ Suc k) xs = Some ys" "length ys = length xs" "mset ys = mset xs"
    and st: "\<And>q t. q < Nq \<Longrightarrow> staged (\<lambda>i. sig coop ys t (q * coop + i)) (2 * m) (2 ^ Suc k)"
    by blast
  have c: "coop = (2 * m) * (2 * 2 ^ k)" using Suc.prems(3) by simp
  have l: "length ys = Nq * coop" using ys(2) Suc.prems(4) by simp
  have st': "staged (\<lambda>i. sig coop ys t (q * coop + i)) (2 * m) (2 * 2 ^ k)" if "q < Nq" for q t
    using st [OF that, of t] by simp
  from Suc.prems have "k < j" by simp
  from Suc.IH [OF Suc.prems(1) this c l st'] obtain zs where
    zs: "merge_strides coop (2 ^ k) ys = Some zs" "length zs = length ys" "mset zs = mset ys"
      "\<forall>q < Nq. \<forall>t. staged (\<lambda>i. sig coop zs t (q * coop + i)) (coop div 32) 32"
    by blast
  have "warp_size \<le> 2 ^ Suc k"
  proof -
    have "(2::nat) ^ 5 \<le> 2 ^ Suc k" using Suc.hyps by (intro power_increasing) simp_all
    then show ?thesis by (simp add: warp_size_def)
  qed
  then have "merge_strides coop (2 ^ Suc k) xs = Some zs"
    using ys(1) zs(1) by (subst merge_strides.simps) simp
  with zs ys show ?case by auto
qed

lemma concat_uniform:
  assumes "\<And>w. w < n \<Longrightarrow> length (f w) = c"
  shows "length (concat (map f [0..<n])) = n * c"
    and "w < n \<Longrightarrow> l < c \<Longrightarrow> concat (map f [0..<n]) ! (w * c + l) = f w ! l"
  using assms
proof (induction n arbitrary: w)
  case 0
  {
    case 1
    show ?case by simp
  next
    case 2
    then show ?case by simp
  }
next
  case (Suc n)
  {
    case 1
    then show ?case using Suc.IH(1) by simp
  next
    case 2
    have len: "length (concat (map f [0..<n])) = n * c" using 2 Suc.IH(1) by simp
    show ?case
    proof (cases "w < n")
      case True
      then have "w * c + l < n * c" using 2 by (intro in_block)
      then show ?thesis using True 2 Suc.IH(2) [of w] by (simp add: nth_append len)
    next
      case False
      with 2 have "w = n" by simp
      then show ?thesis by (simp add: nth_append len)
    qed
  }
qed

lemma CEIL_DIV_warps: "CEIL_DIV (n * warp_size) warp_size = n"
  by (simp add: CEIL_DIV_def warp_size_def)

lemma warp_of_nth:
  assumes "length xs = n * warp_size" "w < n"
  shows "length (warp_of xs w) = warp_size"
    and "l < warp_size \<Longrightarrow> warp_of xs w ! l = xs ! (w * warp_size + l)"
proof -
  have le: "w * warp_size + warp_size \<le> n * warp_size"
    using assms(2) by (metis Suc_leI mult_Suc mult_le_mono1 add.commute)
  then show "length (warp_of xs w) = warp_size"
    using assms(1) by (simp add: warp_of_def mult.commute)
  have "warp_size * w \<le> length xs" using assms by (simp add: mult.commute)
  then show "l < warp_size \<Longrightarrow> warp_of xs w ! l = xs ! (w * warp_size + l)"
    by (simp add: warp_of_def mult.commute)
qed

lemma concat_warps:
  assumes "length xs = n * warp_size"
  shows "concat (map (warp_of xs) [0..<n]) = xs"
proof (rule nth_equalityI)
  have c: "\<And>w. w < n \<Longrightarrow> length (warp_of xs w) = warp_size"
    using assms by (rule warp_of_nth)
  show l: "length (concat (map (warp_of xs) [0..<n])) = length xs"
    using concat_uniform(1) [OF c] assms by simp
  fix i assume "i < length (concat (map (warp_of xs) [0..<n]))"
  then have i: "i < n * warp_size" using l assms by simp
  have ws: "0 < warp_size" by (simp add: warp_size_def)
  let ?w = "i div warp_size" and ?l = "i mod warp_size"
  have w: "?w < n" using i ws by (simp add: less_mult_imp_div_less)
  have r: "?l < warp_size" using ws by simp
  have e: "i = ?w * warp_size + ?l" by (rule div_mult_mod_eq [symmetric])
  have "concat (map (warp_of xs) [0..<n]) ! (?w * warp_size + ?l) = warp_of xs ?w ! ?l"
    using c w r by (rule concat_uniform(2))
  also have "\<dots> = xs ! (?w * warp_size + ?l)" using assms w r by (rule warp_of_nth(2))
  finally show "concat (map (warp_of xs) [0..<n]) ! i = xs ! i" using e by simp
qed

lemma sort_warps_facts:
  assumes ws: "warp_sorter wsort" and len: "length xs = n * warp_size"
  shows "length (sort_warps wsort asc xs) = length xs"
    and "mset (sort_warps wsort asc xs) = mset xs"
    and "w < n \<Longrightarrow> warp_of (sort_warps wsort asc xs) w = wsort (asc w) (warp_of xs w)"
proof -
  let ?f = "\<lambda>w. wsort (asc w) (warp_of xs w)"
  have ms: "mset (?f w) = mset (warp_of xs w)" if "w < n" for w
    using ws warp_of_nth(1) [OF len that] unfolding warp_sorter_def by blast
  have c: "length (?f w) = warp_size" if "w < n" for w
    using ms [OF that] warp_of_nth(1) [OF len that] by (metis size_mset)
  have def: "sort_warps wsort asc xs = concat (map ?f [0..<n])"
    by (simp add: sort_warps_def len CEIL_DIV_warps)
  show l: "length (sort_warps wsort asc xs) = length xs"
    unfolding def using concat_uniform(1) [of n ?f, OF c] len by simp
  have "mset (concat (map ?f [0..<n])) = (\<Sum>w\<leftarrow>[0..<n]. mset (?f w))"
    by (simp add: mset_concat comp_def)
  also have "\<dots> = (\<Sum>w\<leftarrow>[0..<n]. mset (warp_of xs w))"
    using ms by (intro arg_cong [of _ _ sum_list] map_cong) auto
  also have "\<dots> = mset (concat (map (warp_of xs) [0..<n]))"
    by (simp add: mset_concat comp_def)
  finally show "mset (sort_warps wsort asc xs) = mset xs"
    unfolding def by (simp only: concat_warps [OF len])
  show "warp_of (sort_warps wsort asc xs) w = wsort (asc w) (warp_of xs w)" if w: "w < n"
  proof (rule nth_equalityI)
    have len': "length (sort_warps wsort asc xs) = n * warp_size" using l len by simp
    show "length (warp_of (sort_warps wsort asc xs) w) = length (?f w)"
      using warp_of_nth(1) [OF len' w] c [OF w] by simp
    fix i assume "i < length (warp_of (sort_warps wsort asc xs) w)"
    then have i: "i < warp_size" using warp_of_nth(1) [OF len' w] by simp
    have "warp_of (sort_warps wsort asc xs) w ! i = sort_warps wsort asc xs ! (w * warp_size + i)"
      using len' w i by (rule warp_of_nth(2))
    also have "\<dots> = ?f w ! i"
      unfolding def using c w i by (rule concat_uniform(2))
    finally show "warp_of (sort_warps wsort asc xs) w ! i = ?f w ! i" .
  qed
qed

lemma mono_threshold:
  assumes "\<And>i j. i \<le> j \<Longrightarrow> j < c \<Longrightarrow> P i \<Longrightarrow> P j"
  shows "\<exists>a \<le> c. \<forall>i < c. P i \<longleftrightarrow> a \<le> (i::nat)"
  using assms
proof (induction c)
  case 0
  show ?case by simp
next
  case (Suc c)
  then obtain a where a: "a \<le> c" "\<forall>i < c. P i \<longleftrightarrow> a \<le> i" by (metis less_Suc_eq)
  show ?case
  proof (cases "P c")
    case True
    with a show ?thesis by (intro exI [of _ a]) (auto simp: less_Suc_eq)
  next
    case False
    have "\<not> P i" if "i < Suc c" for i
      using Suc.prems [of i c] that False by auto
    then show ?thesis by (intro exI [of _ "Suc c"]) auto
  qed
qed

lemma anti_threshold:
  assumes "\<And>i j. i \<le> j \<Longrightarrow> j < c \<Longrightarrow> P j \<Longrightarrow> P i"
  shows "\<exists>b \<le> c. \<forall>i < c. P i \<longleftrightarrow> (i::nat) < b"
proof -
  have "\<exists>a \<le> c. \<forall>i < c. \<not> P i \<longleftrightarrow> a \<le> i"
    using assms by (intro mono_threshold) blast
  then obtain a where "a \<le> c" "\<forall>i < c. \<not> P i \<longleftrightarrow> a \<le> i" by blast
  then show ?thesis by (intro exI [of _ a]) (auto simp: not_le [symmetric])
qed

lemma bitonic_up_down:
  assumes up: "\<And>i j. i \<le> j \<Longrightarrow> j < h \<Longrightarrow> s (lo + i) \<Longrightarrow> s (lo + j)"
    and down: "\<And>i j. i \<le> j \<Longrightarrow> j < h \<Longrightarrow> s (lo + h + j) \<Longrightarrow> s (lo + h + i)"
  shows "bitonic01 s lo (2 * h)"
proof -
  have "\<exists>a \<le> h. \<forall>i < h. s (lo + i) \<longleftrightarrow> a \<le> i"
    by (rule mono_threshold [where P = "\<lambda>i. s (lo + i)"]) (rule up)
  then obtain a where a: "a \<le> h" "\<And>i. i < h \<Longrightarrow> s (lo + i) \<longleftrightarrow> a \<le> i" by blast
  have "\<exists>b \<le> h. \<forall>i < h. s (lo + h + i) \<longleftrightarrow> i < b"
    by (rule anti_threshold [where P = "\<lambda>i. s (lo + h + i)"]) (rule down)
  then obtain b where b: "b \<le> h" "\<And>i. i < h \<Longrightarrow> s (lo + h + i) \<longleftrightarrow> i < b" by blast
  show ?thesis
  proof (rule bitonic01_I [of a "h + b"])
    show "a \<le> h + b" "h + b \<le> 2 * h" using a b by simp_all
    fix i assume i: "i < 2 * h"
    show "s (lo + i) \<longleftrightarrow> a \<le> i \<and> i < h + b"
    proof (cases "i < h")
      case True
      then show ?thesis using a(2) [OF True] by auto
    next
      case False
      then obtain i' where i': "i = h + i'" "i' < h" using i by (metis le_Suc_ex not_less add_less_cancel_left mult_2)
      have "s (lo + h + i') \<longleftrightarrow> i' < b" using b(2) [OF i'(2)] .
      then show ?thesis unfolding i'(1) using a(1) by (auto simp: add.assoc)
    qed
  qed
qed

lemma bitonic_down_up:
  assumes down: "\<And>i j. i \<le> j \<Longrightarrow> j < h \<Longrightarrow> s (lo + j) \<Longrightarrow> s (lo + i)"
    and up: "\<And>i j. i \<le> j \<Longrightarrow> j < h \<Longrightarrow> s (lo + h + i) \<Longrightarrow> s (lo + h + j)"
  shows "bitonic01 s lo (2 * h)"
proof -
  have "\<exists>a \<le> h. \<forall>i < h. s (lo + i) \<longleftrightarrow> i < a"
    by (rule anti_threshold [where P = "\<lambda>i. s (lo + i)"]) (rule down)
  then obtain a where a: "a \<le> h" "\<And>i. i < h \<Longrightarrow> s (lo + i) \<longleftrightarrow> i < a" by blast
  have "\<exists>b \<le> h. \<forall>i < h. s (lo + h + i) \<longleftrightarrow> b \<le> i"
    by (rule mono_threshold [where P = "\<lambda>i. s (lo + h + i)"]) (rule up)
  then obtain b where b: "b \<le> h" "\<And>i. i < h \<Longrightarrow> s (lo + h + i) \<longleftrightarrow> b \<le> i" by blast
  show ?thesis
  proof (rule bitonic01_I' [of a "h + b"])
    show "a \<le> h + b" "h + b \<le> 2 * h" using a b by simp_all
    fix i assume i: "i < 2 * h"
    show "s (lo + i) \<longleftrightarrow> \<not> (a \<le> i \<and> i < h + b)"
    proof (cases "i < h")
      case True
      then show ?thesis using a(2) [OF True] by auto
    next
      case False
      then obtain i' where i': "i = h + i'" "i' < h" using i by (metis le_Suc_ex not_less add_less_cancel_left mult_2)
      have "s (lo + h + i') \<longleftrightarrow> b \<le> i'" using b(2) [OF i'(2)] .
      then show ?thesis unfolding i'(1) using a(1) by (auto simp: add.assoc)
    qed
  qed
qed

lemma dir_in_block:
  fixes q i j :: nat
  assumes "i < 2 ^ j"
  shows "(q * 2 ^ j + i) AND 2 ^ j = 0 \<longleftrightarrow> even q"
  by (simp only: and_pow2 div_block [OF assms])

lemma sig_in_block:
  assumes "i < 2 ^ j"
  shows "sig (2 ^ j) xs t (q * 2 ^ j + i) \<longleftrightarrow>
     (if even q then t < fst (xs ! (q * 2 ^ j + i)) else fst (xs ! (q * 2 ^ j + i)) \<le> t)"
  unfolding sig_def dir_in_block [OF assms] ..

lemma initial_staged:
  assumes coop: "coop = 2 ^ j" "coop = 2 * h" and r: "runs xs h (2 * Nq)" and q: "q < Nq"
  shows "staged (\<lambda>i. sig coop xs t (q * coop + i)) 1 (2 * h)"
proof -
  let ?s = "\<lambda>i. sig coop xs t (q * coop + i)"
  let ?k = "\<lambda>i. fst (xs ! (q * coop + i))"
  have p0: "(2 * q) * h + i = q * coop + i" for i by (simp add: coop(2))
  have p1: "(2 * q + 1) * h + i = q * coop + (h + i)" for i by (simp add: coop(2) algebra_simps)
  from r q have "run_sorted xs True ((2 * q) * h) h" "run_sorted xs False ((2 * q + 1) * h) h"
    unfolding runs_def by (auto dest: spec [of _ "2 * q"] spec [of _ "2 * q + 1"])
  then have asc: "\<And>i j. i \<le> j \<Longrightarrow> j < h \<Longrightarrow> ?k i \<le> ?k j"
    and desc: "\<And>i j. i \<le> j \<Longrightarrow> j < h \<Longrightarrow> ?k (h + j) \<le> ?k (h + i)"
    unfolding run_sorted_def p0 p1 by auto
  have s: "?s i \<longleftrightarrow> (if even q then t < ?k i else ?k i \<le> t)" if "i < 2 * h" for i
    using that sig_in_block [of i j xs t q] by (simp add: coop(1) coop(2) [symmetric])
  have "bitonic01 ?s 0 (2 * h)"
  proof (cases "even q")
    case True
    show ?thesis
    proof (rule bitonic_up_down)
      fix i j assume "i \<le> j" "j < h" "?s (0 + i)"
      then show "?s (0 + j)" using asc [of i j] s [of i] s [of j] True by simp
    next
      fix i j assume "i \<le> j" "j < h" "?s (0 + h + j)"
      then show "?s (0 + h + i)" using desc [of i j] s [of "h + i"] s [of "h + j"] True by simp
    qed
  next
    case False
    show ?thesis
    proof (rule bitonic_down_up)
      fix i j assume "i \<le> j" "j < h" "?s (0 + j)"
      then show "?s (0 + i)" using asc [of i j] s [of i] s [of j] False by simp
    next
      fix i j assume "i \<le> j" "j < h" "?s (0 + h + i)"
      then show "?s (0 + h + j)" using desc [of i j] s [of "h + i"] s [of "h + j"] False by simp
    qed
  qed
  then show ?thesis unfolding staged_def by simp
qed

lemma sig_thr:
  assumes "i < 2 ^ j"
  shows "sig (2 ^ j) xs t (q * 2 ^ j + i) = thr (even q) t (xs ! (q * 2 ^ j + i))"
  unfolding thr_def by (rule sig_in_block [OF assms])

lemma chunks_sorted:
  assumes st: "\<And>t. staged (\<lambda>i. thr asc t (ys ! (lo + i))) n L" and L: "0 < L"
    and chunk: "\<And>b. b < n \<Longrightarrow>
       set (map (\<lambda>r. zs ! (lo + (b * L + r))) [0..<L]) = set (map (\<lambda>r. ys ! (lo + (b * L + r))) [0..<L])"
    and srt: "\<And>b r1 r2. b < n \<Longrightarrow> r1 \<le> r2 \<Longrightarrow> r2 < L \<Longrightarrow>
       (if asc then fst (zs ! (lo + (b * L + r1))) \<le> fst (zs ! (lo + (b * L + r2)))
        else fst (zs ! (lo + (b * L + r2))) \<le> fst (zs ! (lo + (b * L + r1))))"
  shows "run_sorted zs asc lo (n * L)"
proof -
  have mono: "thr asc t (zs ! (lo + j))" if ij: "i \<le> j" "j < n * L" "thr asc t (zs ! (lo + i))" for i j t
  proof (rule staged_sorted [where s = "\<lambda>i. thr asc t (ys ! (lo + i))"
        and s' = "\<lambda>i. thr asc t (zs ! (lo + i))" and n = n and L = L and i = i and j = j])
    show "staged (\<lambda>i. thr asc t (ys ! (lo + i))) n L" by (rule st)
    show "0 < L" by (rule L)
    show "i \<le> j" "j < n * L" "thr asc t (zs ! (lo + i))" by (rule ij)+
  next
    fix b assume b: "b < n" and "\<exists>r < L. thr asc t (zs ! (lo + (b * L + r)))"
    then obtain r where r: "r < L" "thr asc t (zs ! (lo + (b * L + r)))" by blast
    then have "zs ! (lo + (b * L + r)) \<in> set (map (\<lambda>r. zs ! (lo + (b * L + r))) [0..<L])" by simp
    then have "zs ! (lo + (b * L + r)) \<in> set (map (\<lambda>r. ys ! (lo + (b * L + r))) [0..<L])"
      by (simp only: chunk [OF b])
    then obtain r' where "r' < L" "zs ! (lo + (b * L + r)) = ys ! (lo + (b * L + r'))" by auto
    with r(2) show "\<exists>r < L. thr asc t (ys ! (lo + (b * L + r)))" by auto
  next
    fix b assume b: "b < n" and all: "\<forall>r < L. thr asc t (ys ! (lo + (b * L + r)))"
    show "\<forall>r < L. thr asc t (zs ! (lo + (b * L + r)))"
    proof (intro allI impI)
      fix r assume "r < L"
      then have "zs ! (lo + (b * L + r)) \<in> set (map (\<lambda>r. zs ! (lo + (b * L + r))) [0..<L])" by simp
      then have "zs ! (lo + (b * L + r)) \<in> set (map (\<lambda>r. ys ! (lo + (b * L + r))) [0..<L])"
        by (simp only: chunk [OF b])
      then obtain r' where "r' < L" "zs ! (lo + (b * L + r)) = ys ! (lo + (b * L + r'))" by auto
      with all show "thr asc t (zs ! (lo + (b * L + r)))" by auto
    qed
  next
    fix b r1 r2 assume "b < n" "r1 \<le> r2" "r2 < L" "thr asc t (zs ! (lo + (b * L + r1)))"
    then show "thr asc t (zs ! (lo + (b * L + r2)))"
      using srt [of b r1 r2] by (auto simp: thr_def split: if_splits)
  qed
  show ?thesis
    unfolding run_sorted_def
  proof (intro allI impI)
    fix i j assume ij: "i \<le> j \<and> j < n * L"
    show "if asc then fst (zs ! (lo + i)) \<le> fst (zs ! (lo + j))
          else fst (zs ! (lo + j)) \<le> fst (zs ! (lo + i))"
    proof (cases asc)
      case True
      have "\<not> thr asc (fst (zs ! (lo + j))) (zs ! (lo + j))" using True by (simp add: thr_def)
      with mono [of i j "fst (zs ! (lo + j))"] ij
      have "\<not> thr asc (fst (zs ! (lo + j))) (zs ! (lo + i))" by blast
      then show ?thesis using True by (simp add: thr_def)
    next
      case False
      have "thr asc (fst (zs ! (lo + i))) (zs ! (lo + i))" using False by (simp add: thr_def)
      with mono [of i j "fst (zs ! (lo + i))"] ij
      have "thr asc (fst (zs ! (lo + i))) (zs ! (lo + j))" by blast
      then show ?thesis using False by (simp add: thr_def)
    qed
  qed
qed

lemma bitonic01_cong:
  assumes "\<And>i. i < n \<Longrightarrow> s (lo + i) = s' (lo + i)"
  shows "bitonic01 s lo n = bitonic01 s' lo n"
  unfolding bitonic01_def using assms by simp

lemma staged_cong:
  assumes "\<And>i. i < n * L \<Longrightarrow> s i = s' i"
  shows "staged s n L = staged s' n L"
proof -
  have eq: "s (b * L + r) = s' (b * L + r)" if "b < n" "r < L" for b r
    using that by (intro assms in_block)
  have "bitonic01 s (b * L) L = bitonic01 s' (b * L) L" if "b < n" for b
    using eq [OF that] by (rule bitonic01_cong)
  moreover have "(s (b1 * L + r1) \<longrightarrow> s (b2 * L + r2)) = (s' (b1 * L + r1) \<longrightarrow> s' (b2 * L + r2))"
    if "b1 < b2" "b2 < n" "r1 < L" "r2 < L" for b1 b2 r1 r2
    using eq [of b1 r1] eq [of b2 r2] that by simp
  ultimately show ?thesis unfolding staged_def by blast
qed

lemma warp_of_map:
  assumes "length xs = n * warp_size" "w < n"
  shows "warp_of xs w = map (\<lambda>r. xs ! (w * warp_size + r)) [0..<warp_size]"
  using warp_of_nth [OF assms] by (intro nth_equalityI) simp_all

lemma level_step:
  assumes ws: "warp_sorter wsort" and coop: "coop = 2 ^ j" "6 \<le> j"
    and len: "length xs = Nq * coop" and r: "runs xs (coop div 2) (2 * Nq)"
  shows "\<exists>ys. merge_strides coop (coop div 2) xs = Some ys \<and>
           length (sort_warps wsort (\<lambda>w. (warp_size * w) AND coop = 0) ys) = length xs \<and>
           mset (sort_warps wsort (\<lambda>w. (warp_size * w) AND coop = 0) ys) = mset xs \<and>
           runs (sort_warps wsort (\<lambda>w. (warp_size * w) AND coop = 0) ys) coop Nq"
proof -
  obtain k where k: "j = Suc k" "5 \<le> k" using coop(2) by (cases j) auto
  have c2: "coop = 2 * 2 ^ k" using coop(1) k by simp
  have h: "coop div 2 = 2 ^ k" using c2 by simp
  have c1: "coop = 1 * (2 * 2 ^ k)" using c2 by simp
  have kj: "k < j" using k by simp
  have r': "runs xs (2 ^ k) (2 * Nq)" using r h by simp
  have st0: "staged (\<lambda>i. sig coop xs t (q * coop + i)) 1 (2 * 2 ^ k)" if "q < Nq" for q t
    using coop(1) c2 r' that by (rule initial_staged)
  from merge_strides_staged [OF k(2) coop(1) kj c1 len st0] obtain ys where
    ys: "merge_strides coop (2 ^ k) xs = Some ys" "length ys = length xs" "mset ys = mset xs"
    and st: "\<And>q t. q < Nq \<Longrightarrow> staged (\<lambda>i. sig coop ys t (q * coop + i)) (coop div 32) 32"
    by blast
  define cw :: nat where "cw = 2 ^ (k - 4)"
  have "(2::nat) ^ Suc k = 2 ^ ((k - 4) + 5)" using k(2) by simp
  also have "\<dots> = cw * 32" unfolding power_add cw_def by simp
  finally have cw: "coop = cw * 32" using coop(1) k(1) by simp
  have cd: "coop div 32 = cw" using cw by simp
  let ?dir = "\<lambda>w. (warp_size * w) AND coop = 0"
  define zs where "zs = sort_warps wsort ?dir ys"
  have leny: "length ys = (Nq * cw) * warp_size"
    using ys(2) len cw by (simp add: warp_size_def)
  have lenz: "length zs = length ys" and msz: "mset zs = mset ys"
    and wz: "\<And>w. w < Nq * cw \<Longrightarrow> warp_of zs w = wsort (?dir w) (warp_of ys w)"
    unfolding zs_def using sort_warps_facts [OF ws leny, where asc = ?dir] by blast+
  have lenz': "length zs = (Nq * cw) * warp_size" using lenz leny by simp
  have "run_sorted zs (even q) (q * coop) coop" if q: "q < Nq" for q
  proof -
    have pos: "(q * cw + b) * warp_size + l = q * coop + (b * 32 + l)" for b l
      by (simp add: cw warp_size_def algebra_simps)
    have w: "q * cw + b < Nq * cw" if "b < cw" for b using q that by (rule in_block)
    have dir: "?dir (q * cw + b) \<longleftrightarrow> even q" if "b < cw" for b
    proof -
      have "b * 32 < (2::nat) ^ j" using that cw coop(1) by simp
      from dir_in_block [OF this, of q] have "(q * coop + b * 32) AND coop = 0 \<longleftrightarrow> even q"
        by (simp only: coop(1))
      moreover have "warp_size * (q * cw + b) = q * coop + b * 32"
        by (simp add: cw warp_size_def algebra_simps)
      ultimately show ?thesis by simp
    qed
    have cz: "warp_of zs (q * cw + b) = map (\<lambda>l. zs ! (q * coop + (b * 32 + l))) [0..<32]"
      if "b < cw" for b
      using warp_of_map [OF lenz' w [OF that]] unfolding pos by (simp add: warp_size_def)
    have cy: "warp_of ys (q * cw + b) = map (\<lambda>l. ys ! (q * coop + (b * 32 + l))) [0..<32]"
      if "b < cw" for b
      using warp_of_map [OF leny w [OF that]] unfolding pos by (simp add: warp_size_def)
    have srtd: "mset (warp_of zs (q * cw + b)) = mset (warp_of ys (q * cw + b)) \<and>
        (if even q then sorted (map fst (warp_of zs (q * cw + b)))
         else sorted (rev (map fst (warp_of zs (q * cw + b)))))" if "b < cw" for b
    proof -
      have "length (warp_of ys (q * cw + b)) = warp_size"
        using leny w [OF that] by (rule warp_of_nth(1))
      with ws have "mset (wsort (even q) (warp_of ys (q * cw + b))) = mset (warp_of ys (q * cw + b)) \<and>
        (if even q then sorted (map fst (wsort (even q) (warp_of ys (q * cw + b))))
         else sorted (rev (map fst (wsort (even q) (warp_of ys (q * cw + b))))))"
        unfolding warp_sorter_def by blast
      then show ?thesis unfolding wz [OF w [OF that]] dir [OF that] .
    qed
    have "run_sorted zs (even q) (q * coop) (cw * 32)"
    proof (rule chunks_sorted [where ys = ys])
      fix t
      have "staged (\<lambda>i. sig coop ys t (q * coop + i)) cw 32" using st [OF q] cd by simp
      moreover have "staged (\<lambda>i. sig coop ys t (q * coop + i)) cw 32 =
          staged (\<lambda>i. thr (even q) t (ys ! (q * coop + i))) cw 32"
      proof (rule staged_cong)
        fix i assume "i < cw * 32"
        then have "i < 2 ^ j" using cw coop(1) by simp
        from sig_thr [OF this, of ys t q]
        show "sig coop ys t (q * coop + i) = thr (even q) t (ys ! (q * coop + i))"
          by (simp only: coop(1))
      qed
      ultimately show "staged (\<lambda>i. thr (even q) t (ys ! (q * coop + i))) cw 32" by simp
    next
      show "0 < (32::nat)" by simp
    next
      fix b assume b: "b < cw"
      from srtd [OF b] have "set (warp_of zs (q * cw + b)) = set (warp_of ys (q * cw + b))"
        by (metis mset_eq_setD)
      then show "set (map (\<lambda>r. zs ! (q * coop + (b * 32 + r))) [0..<32]) =
          set (map (\<lambda>r. ys ! (q * coop + (b * 32 + r))) [0..<32])"
        by (simp only: cz [OF b] cy [OF b])
    next
      fix b r1 r2 :: nat assume b: "b < cw" and rr: "r1 \<le> r2" "r2 < 32"
      let ?c = "map (\<lambda>l. zs ! (q * coop + (b * 32 + l))) [0..<32]"
      have n1: "fst (zs ! (q * coop + (b * 32 + r1))) = map fst ?c ! r1"
        and n2: "fst (zs ! (q * coop + (b * 32 + r2))) = map fst ?c ! r2"
        using rr by simp_all
      have l: "r2 < length (map fst ?c)" using rr by simp
      from srtd [OF b] have s: "if even q then sorted (map fst ?c) else sorted (rev (map fst ?c))"
        unfolding cz [OF b] by (rule conjunct2)
      show "if even q then fst (zs ! (q * coop + (b * 32 + r1))) \<le> fst (zs ! (q * coop + (b * 32 + r2)))
            else fst (zs ! (q * coop + (b * 32 + r2))) \<le> fst (zs ! (q * coop + (b * 32 + r1)))"
      proof (cases "even q")
        case True
        with s have "sorted (map fst ?c)" by simp
        from sorted_nth_mono [OF this rr(1) l] show ?thesis using True by (simp only: n1 n2) simp
      next
        case False
        with s have "sorted (rev (map fst ?c))" by simp
        from sorted_rev_nth_mono [OF this rr(1) l] show ?thesis using False by (simp only: n1 n2) simp
      qed
    qed
    then show ?thesis using cw by simp
  qed
  then have "runs zs coop Nq" unfolding runs_def by blast
  with ys lenz msz show ?thesis unfolding zs_def h by auto
qed

lemma coop_loop_sorted:
  assumes ws: "warp_sorter wsort"
  shows "length xs = 2 ^ m \<Longrightarrow> 5 \<le> k \<Longrightarrow> k \<le> m \<Longrightarrow> runs xs (2 ^ k) (2 ^ (m - k)) \<Longrightarrow>
     \<exists>zs. coop_loop wsort (2 ^ m) (2 * 2 ^ k) xs = Some zs \<and> length zs = length xs \<and>
       mset zs = mset xs \<and> runs zs (2 ^ m) 1"
proof (induction "m - k" arbitrary: k xs)
  case 0
  then have k: "k = m" by simp
  have "coop_loop wsort (2 ^ m) (2 * 2 ^ m) xs = Some xs"
    by (subst coop_loop.simps) simp
  with 0 k show ?case by simp
next
  case (Suc d)
  then have km: "k < m" by simp
  define coop :: nat where "coop = 2 ^ Suc k"
  define Nq :: nat where "Nq = 2 ^ (m - Suc k)"
  have j: "6 \<le> Suc k" using Suc.prems by simp
  have "(2::nat) ^ m = 2 ^ ((m - Suc k) + Suc k)" using km by simp
  also have "\<dots> = Nq * coop" unfolding power_add Nq_def coop_def ..
  finally have H: "(2::nat) ^ m = Nq * coop" .
  have len: "length xs = Nq * coop" using Suc.prems(1) H by simp
  have half: "coop div 2 = 2 ^ k" by (simp add: coop_def)
  have "(2::nat) ^ (m - k) = 2 ^ Suc (m - Suc k)" using km by (simp add: Suc_diff_Suc)
  then have two: "(2::nat) ^ (m - k) = 2 * Nq" by (simp add: Nq_def)
  have r: "runs xs (coop div 2) (2 * Nq)" using Suc.prems(4) half two by simp
  let ?dir = "\<lambda>w. (warp_size * w) AND coop = 0"
  from level_step [OF ws coop_def j len r] obtain ys where
    ys: "merge_strides coop (coop div 2) xs = Some ys"
      "length (sort_warps wsort ?dir ys) = length xs"
      "mset (sort_warps wsort ?dir ys) = mset xs"
      "runs (sort_warps wsort ?dir ys) coop Nq"
    by blast
  have d: "d = m - Suc k" using Suc.hyps(2) by simp
  have l': "length (sort_warps wsort ?dir ys) = 2 ^ m" using ys(2) Suc.prems(1) by simp
  have r': "runs (sort_warps wsort ?dir ys) (2 ^ Suc k) (2 ^ (m - Suc k))"
    using ys(4) by (simp only: coop_def Nq_def)
  from Suc.hyps(1) [OF d l' _ _ r'] km Suc.prems(2) obtain zs where
    zs: "coop_loop wsort (2 ^ m) (2 * 2 ^ Suc k) (sort_warps wsort ?dir ys) = Some zs"
      "length zs = length (sort_warps wsort ?dir ys)"
      "mset zs = mset (sort_warps wsort ?dir ys)" "runs zs (2 ^ m) 1"
    by auto
  have le: "coop \<le> 2 ^ m" using H by (cases Nq) (simp_all add: Nq_def)
  have pos: "0 < coop" by (simp add: coop_def)
  have "coop_loop wsort (2 ^ m) coop xs = Some zs"
    using le pos ys(1) zs(1) by (subst coop_loop.simps) (simp add: coop_def)
  then have "coop_loop wsort (2 ^ m) (2 * 2 ^ k) xs = Some zs" by (simp add: coop_def)
  with zs ys show ?case by simp
qed

lemma initial_runs:
  assumes ws: "warp_sorter wsort" and len: "length xs = n * warp_size"
  shows "runs (sort_warps wsort even xs) 32 n"
  unfolding runs_def run_sorted_def
proof (intro allI impI)
  fix w i j :: nat assume w: "w < n" and ij: "i \<le> j \<and> j < 32"
  let ?zs = "sort_warps wsort even xs"
  let ?c = "wsort (even w) (warp_of xs w)"
  have lz: "length ?zs = n * warp_size" using sort_warps_facts(1) [OF ws len] len by simp
  have c: "warp_of ?zs w = ?c" using ws len w by (rule sort_warps_facts(3))
  have lc: "length (warp_of xs w) = warp_size" using len w by (rule warp_of_nth(1))
  then have "length ?c = 32"
    using ws unfolding warp_sorter_def by (metis size_mset warp_size_def)
  then have l: "j < length (map fst ?c)" using ij by simp
  have nth: "fst (?zs ! (w * 32 + l)) = map fst ?c ! l" if "l < 32" for l
  proof -
    have "?zs ! (w * warp_size + l) = warp_of ?zs w ! l"
      using warp_of_nth(2) [OF lz w, of l] that by (simp add: warp_size_def)
    then show ?thesis using that \<open>length ?c = 32\<close> c by (simp add: warp_size_def)
  qed
  from ws lc have s: "if even w then sorted (map fst ?c) else sorted (rev (map fst ?c))"
    unfolding warp_sorter_def by blast
  have i: "i < 32" using ij by simp
  show "if even w then fst (?zs ! (w * 32 + i)) \<le> fst (?zs ! (w * 32 + j))
        else fst (?zs ! (w * 32 + j)) \<le> fst (?zs ! (w * 32 + i))"
  proof (cases "even w")
    case True
    with s have "sorted (map fst ?c)" by simp
    from sorted_nth_mono [OF this _ l, of i] ij show ?thesis
      using True by (simp only: nth [OF i] nth [of j]) simp
  next
    case False
    with s have "sorted (rev (map fst ?c))" by simp
    from sorted_rev_nth_mono [OF this _ l, of i] ij show ?thesis
      using False by (simp only: nth [OF i] nth [of j]) simp
  qed
qed

lemma sort_row_correct:
  assumes ws: "warp_sorter wsort" and H: "H = 2 ^ m" "5 \<le> m"
  shows "\<exists>zs. sort_row wsort H D hub_id = Some zs \<and> length zs = H \<and> sorted (map fst zs) \<and>
           mset (map snd zs) = mset [0..<H] \<and>
           (\<forall>j < H. fst (zs ! j) = D ! (H * hub_id + snd (zs ! j)))"
proof -
  let ?xs0 = "map (\<lambda>sort_id. (D ! (H * hub_id + sort_id), sort_id)) [0..<H]"
  let ?xs1 = "sort_warps wsort even ?xs0"
  define n :: nat where "n = 2 ^ (m - 5)"
  have "(2::nat) ^ m = 2 ^ ((m - 5) + 5)" using H(2) by simp
  also have "\<dots> = n * 32" unfolding power_add n_def by simp
  finally have Hn: "H = n * warp_size" using H(1) by (simp add: warp_size_def)
  have l0: "length ?xs0 = n * warp_size" using Hn by simp
  have l1: "length ?xs1 = 2 ^ m" using sort_warps_facts(1) [OF ws l0] H(1) by simp
  have m1: "mset ?xs1 = mset ?xs0" using ws l0 by (rule sort_warps_facts(2))
  have "runs ?xs1 32 n" using ws l0 by (rule initial_runs)
  then have r1: "runs ?xs1 (2 ^ 5) (2 ^ (m - 5))" by (simp add: n_def)
  from coop_loop_sorted [OF ws l1 _ H(2) r1] obtain zs where
    zs: "coop_loop wsort (2 ^ m) (2 * 2 ^ 5) ?xs1 = Some zs" "length zs = length ?xs1"
      "mset zs = mset ?xs1" "runs zs (2 ^ m) 1"
    by auto
  have run: "sort_row wsort H D hub_id = Some zs"
    using zs(1) by (simp add: sort_row_def warp_size_def H(1))
  have len: "length zs = H" using zs(2) l1 H(1) by simp
  from zs(4) have "run_sorted zs True 0 H" unfolding runs_def by (simp add: H(1))
  then have "sorted (map fst zs)"
    unfolding run_sorted_def sorted_iff_nth_mono using len by simp
  moreover have ms: "mset zs = mset ?xs0" using zs(3) m1 by simp
  have "mset (map snd zs) = mset (map snd ?xs0)"
    using ms by (metis mset_map)
  then have "mset (map snd zs) = mset [0..<H]" by (simp add: comp_def)
  moreover have "fst (zs ! j) = D ! (H * hub_id + snd (zs ! j))" if "j < H" for j
  proof -
    have "zs ! j \<in> set zs" using that len by simp
    then have "zs ! j \<in> set ?xs0" using ms by (metis mset_eq_setD)
    then show ?thesis by auto
  qed
  ultimately show ?thesis using run len by blast
qed

lemma matrix_row_concat:
  assumes c: "\<And>w. w < n \<Longrightarrow> length (f w) = c" and i: "i < n"
  shows "matrix_row c (concat (map f [0..<n])) i = f i"
proof (rule nth_equalityI)
  let ?M = "concat (map f [0..<n])"
  have lM: "length ?M = n * c" using c by (rule concat_uniform(1))
  have le: "c * i + c \<le> n * c"
    using i by (metis Suc_leI mult_Suc mult_le_mono1 add.commute mult.commute)
  then show l: "length (matrix_row c ?M i) = length (f i)"
    using lM c [OF i] by (simp add: matrix_row_def)
  fix l assume "l < length (matrix_row c ?M i)"
  then have lc: "l < c" using l c [OF i] by simp
  have "c * i \<le> length ?M" using i lM by simp
  then have "matrix_row c ?M i ! l = ?M ! (i * c + l)"
    using lc by (simp add: matrix_row_def mult.commute)
  also have "\<dots> = f i ! l" using c i lc by (rule concat_uniform(2))
  finally show "matrix_row c ?M i ! l = f i ! l" .
qed

lemma popc_is_1_exp:
  assumes "popc_is_1 H" "32 \<le> H"
  obtains m where "H = 2 ^ m" "5 \<le> m"
proof -
  from assms(1) obtain m where m: "H = 2 ^ m" unfolding popc_is_1_def list_ex_iff by auto
  have "5 \<le> m"
  proof (rule ccontr)
    assume "\<not> 5 \<le> m"
    then have "m < 5" by simp
    then have "(2::nat) ^ m < 2 ^ 5" by (intro power_strict_increasing) simp_all
    with assms(2) m show False by simp
  qed
  with m show ?thesis by (rule that)
qed

lemma rounds_in_range:
  assumes "H = 2 ^ m"
  shows "block_size * (ROUNDS H - 1) + min H block_size \<le> H"
proof (cases "m \<le> 10")
  case True
  then have "(2::nat) ^ m \<le> 2 ^ 10" by (intro power_increasing) simp_all
  then have le: "H \<le> 1024" using assms by simp
  have "0 < H" using assms by simp
  with le have "(H + 1023) div 1024 = 1" by simp
  then show ?thesis using le by (simp add: ROUNDS_def block_size_def)
next
  case False
  define a :: nat where "a = 2 ^ (m - 10)"
  have "(2::nat) ^ m = 2 ^ ((m - 10) + 10)" using False by simp
  also have "\<dots> = a * 1024" unfolding power_add a_def by simp
  finally have H: "H = a * 1024" using assms by simp
  have a: "0 < a" by (simp add: a_def)
  have "(a * 1024 + 1023) div 1024 = a" by (rule div_block) simp
  then have "ROUNDS H = a" by (simp add: ROUNDS_def block_size_def H)
  then show ?thesis using a H by (cases a) (simp_all add: block_size_def)
qed

lemma spec_warp_sort_sorter: "warp_sorter spec_warp_sort"
  unfolding warp_sorter_def spec_warp_sort_def by (simp add: rev_map [symmetric])

text \<open>
  C6. With a sort inside the warps that is a \<open>warp_sorter\<close>, \<open>H\<close> a power of two and at
  least 32, and \<open>D\<close> an \<open>H\<close> by \<open>H\<close> matrix, the kernel returns; for every hub \<open>i\<close>, row
  \<open>i\<close> of the identifier matrix is a permutation of \<open>[0, H)\<close>, row \<open>i\<close> of the distance
  matrix is non-decreasing, and the distance at every position \<open>j\<close> of the row is
  \<open>D[i][id]\<close> for the identifier \<open>id\<close> at that position.
\<close>

theorem fused_transform_sort_D_ranks:
  assumes "warp_sorter wsort" "popc_is_1 H" "32 \<le> H" "length D = H * H"
  shows "\<exists>iD dD. fused_transform_sort_D wsort H D = Some (iD, dD) \<and>
           length iD = H * H \<and> length dD = H * H \<and>
           (\<forall>i < H. mset (matrix_row H iD i) = mset [0..<H] \<and> sorted (matrix_row H dD i) \<and>
              (\<forall>j < H. dD ! (H * i + j) = D ! (H * i + iD ! (H * i + j))))"
proof -
  from assms(2,3) obtain m where m: "H = 2 ^ m" "5 \<le> m" by (rule popc_is_1_exp)
  define row where "row = (\<lambda>i. the (sort_row wsort H D i))"
  have row: "sort_row wsort H D i = Some (row i) \<and> length (row i) = H \<and>
      sorted (map fst (row i)) \<and> mset (map snd (row i)) = mset [0..<H] \<and>
      (\<forall>j < H. fst (row i ! j) = D ! (H * i + snd (row i ! j)))" for i
    using sort_row_correct [OF assms(1) m, of D i] unfolding row_def by auto
  let ?iD = "concat (map (\<lambda>i. map snd (row i)) [0..<H])"
  let ?dD = "concat (map (\<lambda>i. map fst (row i)) [0..<H])"
  have "those_opt (map (sort_row wsort H D) [0..<H]) = Some (map row [0..<H])"
    by (rule those_opt_map_Some) (simp add: row)
  then have run: "fused_transform_sort_D wsort H D = Some (?iD, ?dD)"
    using assms(4) rounds_in_range [OF m(1)]
    by (simp add: fused_transform_sort_D_def comp_def)
  have li: "length (map snd (row i)) = H" and ld: "length (map fst (row i)) = H" for i
    using row [of i] by simp_all
  have "length ?iD = H * H" "length ?dD = H * H"
    using concat_uniform(1) [of H "\<lambda>i. map snd (row i)" H]
      concat_uniform(1) [of H "\<lambda>i. map fst (row i)" H] li ld by simp_all
  moreover have "mset (matrix_row H ?iD i) = mset [0..<H] \<and> sorted (matrix_row H ?dD i) \<and>
      (\<forall>j < H. ?dD ! (H * i + j) = D ! (H * i + ?iD ! (H * i + j)))" if i: "i < H" for i
  proof -
    have ri: "matrix_row H ?iD i = map snd (row i)"
      using li i by (intro matrix_row_concat) 
    have rd: "matrix_row H ?dD i = map fst (row i)"
      using ld i by (intro matrix_row_concat)
    have "?dD ! (H * i + j) = D ! (H * i + ?iD ! (H * i + j))" if j: "j < H" for j
    proof -
      have "?iD ! (i * H + j) = map snd (row i) ! j"
        using li i j by (intro concat_uniform(2))
      moreover have "?dD ! (i * H + j) = map fst (row i) ! j"
        using ld i j by (intro concat_uniform(2))
      ultimately show ?thesis using row [of i] j by (simp add: mult.commute)
    qed
    then show ?thesis using row [of i] by (simp only: ri rd) simp
  qed
  ultimately show ?thesis using run by blast
qed

theorem fused_transform_sort_D_ranks_witness:
  "warp_sorter spec_warp_sort \<and> popc_is_1 32 \<and> length ex_D = 32 * 32 \<and>
   (\<exists>iD dD. fused_transform_sort_D spec_warp_sort 32 ex_D = Some (iD, dD) \<and>
      mset (matrix_row 32 iD 0) = mset [0..<32] \<and> sorted (matrix_row 32 dD 0) \<and>
      dD ! 0 = ex_D ! (iD ! 0))"
proof -
  have p: "popc_is_1 32"
    unfolding popc_is_1_def list_ex_iff by (rule bexI [of _ 5]) simp_all
  have l: "length ex_D = 32 * 32" by (simp add: ex_D_def)
  from fused_transform_sort_D_ranks [OF spec_warp_sort_sorter p _ l]
  obtain iD dD where r: "fused_transform_sort_D spec_warp_sort 32 ex_D = Some (iD, dD)"
    and a: "\<forall>i < 32. mset (matrix_row 32 iD i) = mset [0..<32] \<and> sorted (matrix_row 32 dD i) \<and>
              (\<forall>j < 32. dD ! (32 * i + j) = ex_D ! (32 * i + iD ! (32 * i + j)))"
    by auto
  from a have "mset (matrix_row 32 iD 0) = mset [0..<32] \<and> sorted (matrix_row 32 dD 0) \<and>
      (\<forall>j < 32. dD ! (32 * 0 + j) = ex_D ! (32 * 0 + iD ! (32 * 0 + j)))"
    by (rule allE [of _ 0]) simp
  then have "mset (matrix_row 32 iD 0) = mset [0..<32]" "sorted (matrix_row 32 dD 0)"
    "dD ! 0 = ex_D ! (iD ! 0)"
    by auto
  with r spec_warp_sort_sorter p l show ?thesis by blast
qed

end
